theory Spec2Isabelle
  imports Main "HOL-Library.Sublist"
begin

section \<open>Render log browser: the parsing core of \<open>main.py\<close>\<close>

text \<open>
  The program reads a render log into a list of lines (\<open>store_raw_log\<close>) and scans it
  once (\<open>parse_log\<close>), applying six regular expressions through
  \<open>extract_regex_match\<close>. A Python string is modelled as a \<open>string\<close>; its characters
  are the 256 characters of HOL, on which the class \<open>\d\<close> of Python's \<open>re\<close> is the ten
  ASCII digits. The newline character is \<open>CHR 0x0A\<close>.
\<close>

subsection \<open>The fragment of Python's \<open>re\<close> that the six patterns use\<close>

text \<open>
  A pattern is a sequence of items. An atom matches one character: a literal, \<open>\d\<close>, or
  \<open>.\<close> (anything but a newline). \<open>Repeat a lo hi\<close> is the greedy repetition of an atom:
  \<open>a{2}\<close> is \<open>Repeat a 2 (Some 2)\<close>, \<open>a+\<close> is \<open>Repeat a 1 None\<close>, \<open>a*\<close> is
  \<open>Repeat a 0 None\<close>. \<open>Open\<close> and \<open>Close\<close> are the parentheses of a capturing group, and
  \<open>Eol\<close> is \<open>$\<close> without the MULTILINE flag: the end of the string, or the position
  just before a newline that ends the string.
\<close>

datatype atom = Lit char | Digit | Dot

datatype item = Atom atom | Repeat atom nat "nat option" | Open | Close | Eol

text \<open>A match is recorded as the characters it consumed, with the group marks in place.\<close>

datatype tok = Ch char | MOpen | MClose

datatype error = IndexError | FileAccessError | DecodeError

definition is_digit :: "char \<Rightarrow> bool" where
  "is_digit c = (c \<in> set ''0123456789'')"

fun accepts :: "atom \<Rightarrow> char \<Rightarrow> bool" where
  "accepts (Lit c) x = (x = c)"
| "accepts Digit x = is_digit x"
| "accepts Dot x = (x \<noteq> CHR 0x0A)"

fun first_some :: "('a \<Rightarrow> 'b option) \<Rightarrow> 'a list \<Rightarrow> 'b option" where
  "first_some f [] = None"
| "first_some f (x # xs) = (case f x of Some y \<Rightarrow> Some y | None \<Rightarrow> first_some f xs)"

text \<open>
  \<open>rx r s\<close> matches the pattern \<open>r\<close> at the start of \<open>s\<close>, by backtracking: a greedy
  repetition first takes as many characters as it can (at most \<open>hi\<close>) and gives them
  back one at a time, down to \<open>lo\<close>, until the rest of the pattern matches.
\<close>

fun rx :: "item list \<Rightarrow> string \<Rightarrow> tok list option" where
  "rx [] s = Some []"
| "rx (Atom a # r) s =
     (case s of
        [] \<Rightarrow> None
      | c # cs \<Rightarrow> if accepts a c then map_option ((#) (Ch c)) (rx r cs) else None)"
| "rx (Repeat a lo hi # r) s =
     (let n = length (takeWhile (accepts a) s);
          top = (case hi of None \<Rightarrow> n | Some h \<Rightarrow> min h n)
      in first_some (\<lambda>k. map_option ((@) (map Ch (take k s))) (rx r (drop k s)))
           (rev [lo..<Suc top]))"
| "rx (Open # r) s = map_option ((#) MOpen) (rx r s)"
| "rx (Close # r) s = map_option ((#) MClose) (rx r s)"
| "rx (Eol # r) s = (if s = [] \<or> s = [CHR 0x0A] then rx r s else None)"

text \<open>
  \<open>re.search\<close>: the match at the leftmost start position that has one; the start
  positions run from 0 to the length of the string, both included.
\<close>

fun re_search :: "item list \<Rightarrow> string \<Rightarrow> tok list option" where
  "re_search r [] = rx r []"
| "re_search r (c # cs) =
     (case rx r (c # cs) of Some t \<Rightarrow> Some t | None \<Rightarrow> re_search r cs)"

fun chars :: "tok list \<Rightarrow> string" where
  "chars [] = []"
| "chars (Ch c # ts) = c # chars ts"
| "chars (MOpen # ts) = chars ts"
| "chars (MClose # ts) = chars ts"

fun groups :: "tok list \<Rightarrow> string list" where
  "groups [] = []"
| "groups (MOpen # ts) = chars (takeWhile (\<lambda>t. t \<noteq> MClose) ts) # groups ts"
| "groups (Ch c # ts) = groups ts"
| "groups (MClose # ts) = groups ts"

text \<open>
  \<open>match.group(i)\<close>: group 0 is the whole match, group \<open>i\<close> the text of the \<open>i\<close>-th
  pair of parentheses, and an index beyond the last group raises IndexError.
\<close>

definition match_group :: "tok list \<Rightarrow> nat \<Rightarrow> error + string" where
  "match_group mt i =
     (if i = 0 then Inr (chars mt)
      else if i \<le> length (groups mt) then Inr (groups mt ! (i - 1))
      else Inl IndexError)"

subsection \<open>Constants\<close>

definition lits :: "string \<Rightarrow> item list" where
  "lits w = map (\<lambda>c. Atom (Lit c)) w"

text \<open>\<^verbatim>\<open>RENDER_TIME_REGEX = r'render done in (.*)$'\<close>\<close>

definition RENDER_TIME_REGEX :: "item list" where
  "RENDER_TIME_REGEX = lits ''render done in '' @ [Open, Repeat Dot 0 None, Close, Eol]"

text \<open>\<^verbatim>\<open>MEMORY_USAGE_REGEX = r'\d{2}\:\d{2}\:\d{2}\ +\d+MB\ +\|'\<close>\<close>

definition MEMORY_USAGE_REGEX :: "item list" where
  "MEMORY_USAGE_REGEX =
     [Repeat Digit 2 (Some 2), Atom (Lit CHR '':''),
      Repeat Digit 2 (Some 2), Atom (Lit CHR '':''),
      Repeat Digit 2 (Some 2),
      Repeat (Lit CHR '' '') 1 None, Repeat Digit 1 None]
     @ lits ''MB'' @ [Repeat (Lit CHR '' '') 1 None, Atom (Lit CHR ''|'')]"

text \<open>\<^verbatim>\<open>TIME_ELAPSED_REGEX = r'(\d{2}\:\d{2}\:\d{2})\ +\d+MB'\<close>\<close>

definition TIME_ELAPSED_REGEX :: "item list" where
  "TIME_ELAPSED_REGEX =
     [Open,
      Repeat Digit 2 (Some 2), Atom (Lit CHR '':''),
      Repeat Digit 2 (Some 2), Atom (Lit CHR '':''),
      Repeat Digit 2 (Some 2),
      Close,
      Repeat (Lit CHR '' '') 1 None, Repeat Digit 1 None]
     @ lits ''MB''"

text \<open>\<^verbatim>\<open>MEMORY_USAGE_TIME_REGEX = r'\d{2}\:\d{2}\:\d{2}\ +(\d+MB)'\<close>\<close>

definition MEMORY_USAGE_TIME_REGEX :: "item list" where
  "MEMORY_USAGE_TIME_REGEX =
     [Repeat Digit 2 (Some 2), Atom (Lit CHR '':''),
      Repeat Digit 2 (Some 2), Atom (Lit CHR '':''),
      Repeat Digit 2 (Some 2),
      Repeat (Lit CHR '' '') 1 None,
      Open, Repeat Digit 1 None]
     @ lits ''MB'' @ [Close]"

text \<open>\<^verbatim>\<open>WARNING_REGEX = r'WARNING(.*)'\<close> and \<^verbatim>\<open>ERROR_REGEX = r'ERROR(.*)'\<close>\<close>

definition WARNING_REGEX :: "item list" where
  "WARNING_REGEX = lits ''WARNING'' @ [Open, Repeat Dot 0 None, Close]"

definition ERROR_REGEX :: "item list" where
  "ERROR_REGEX = lits ''ERROR'' @ [Open, Repeat Dot 0 None, Close]"

subsection \<open>The model object\<close>

text \<open>
  The fields of \<open>LogBrowserModel\<close>. \<open>memory_usage\<close> is a Python dict, kept as an
  association list in insertion order. A key is what \<open>extract_regex_match\<close> returned
  for the elapsed time, so it is a string or \<open>None\<close>.
\<close>

record model =
  raw_log :: "string list"
  render_time :: "string option"
  memory_usage :: "(string option \<times> string) list"
  warnings :: "string list"
  errors :: "string list"

text \<open>\<open>d.get(k)\<close> and \<open>d[k] = v\<close> on an insertion-ordered dict.\<close>

definition dict_get :: "('k \<times> 'v) list \<Rightarrow> 'k \<Rightarrow> 'v option" where
  "dict_get d k = map_of d k"

fun dict_set :: "('k \<times> 'v) list \<Rightarrow> 'k \<Rightarrow> 'v \<Rightarrow> ('k \<times> 'v) list" where
  "dict_set [] k v = [(k, v)]"
| "dict_set ((k', v') # d) k v =
     (if k' = k then (k', v) # d else (k', v') # dict_set d k v)"

text \<open>Python's truth value of a result that is \<open>None\<close> or a string.\<close>

fun truthy :: "string option \<Rightarrow> bool" where
  "truthy None = False"
| "truthy (Some s) = (s \<noteq> [])"

definition reset_data :: "model \<Rightarrow> model" where
  "reset_data m =
     m\<lparr>raw_log := [], render_time := None, memory_usage := [], warnings := [], errors := []\<rparr>"

text \<open>
  \<open>extract_regex_match\<close>: the group of the leftmost match, \<open>None\<close> when nothing
  matches (the function then falls off its end).
\<close>

definition extract_regex_match :: "item list \<Rightarrow> string \<Rightarrow> nat \<Rightarrow> error + string option" where
  "extract_regex_match regex string group_index =
     (case re_search regex string of
        None \<Rightarrow> Inr None
      | Some mt \<Rightarrow>
          (case match_group mt group_index of
             Inl e \<Rightarrow> Inl e
           | Inr g \<Rightarrow> Inr (Some g)))"

text \<open>
  A procedure on the model returns the exception it raised, if any, and the model as the
  procedure left it. \<open>call\<close> runs the rest of a body on the value of a call, or stops
  with the call's exception and the model as it is at that point.
\<close>

definition call :: "error + 'a \<Rightarrow> model \<Rightarrow> ('a \<Rightarrow> error option \<times> model) \<Rightarrow> error option \<times> model" where
  "call r m k = (case r of Inl e \<Rightarrow> (Some e, m) | Inr x \<Rightarrow> k x)"

text \<open>The four parts of the loop body of \<open>parse_log\<close>, in the order of the source.\<close>

definition look_for_render_time :: "string \<Rightarrow> model \<Rightarrow> error option \<times> model" where
  "look_for_render_time line m =
     call (extract_regex_match RENDER_TIME_REGEX line 1) m (\<lambda>rt.
       if truthy rt then (None, m\<lparr>render_time := rt\<rparr>) else (None, m))"

definition gather_memory_usage :: "string \<Rightarrow> model \<Rightarrow> error option \<times> model" where
  "gather_memory_usage line m =
     call (extract_regex_match MEMORY_USAGE_REGEX line 0) m (\<lambda>mu.
       case mu of
         None \<Rightarrow> (None, m)
       | Some mu_text \<Rightarrow>
           if mu_text = [] then (None, m)
           else
             call (extract_regex_match TIME_ELAPSED_REGEX mu_text 1) m (\<lambda>time_elapsed.
               if \<not> truthy (dict_get (memory_usage m) time_elapsed) then
                 call (extract_regex_match MEMORY_USAGE_TIME_REGEX mu_text 1) m (\<lambda>mut.
                   case mut of
                     None \<Rightarrow> (None, m)
                   | Some mut_text \<Rightarrow>
                       if mut_text = [] then (None, m)
                       else (None,
                         m\<lparr>memory_usage := dict_set (memory_usage m) time_elapsed mut_text\<rparr>))
               else (None, m)))"

definition look_for_warnings :: "string \<Rightarrow> model \<Rightarrow> error option \<times> model" where
  "look_for_warnings line m =
     call (extract_regex_match WARNING_REGEX line 0) m (\<lambda>w.
       case w of
         None \<Rightarrow> (None, m)
       | Some warning \<Rightarrow>
           if warning = [] then (None, m)
           else (None, m\<lparr>warnings := warnings m @ [warning]\<rparr>))"

definition look_for_errors :: "string \<Rightarrow> model \<Rightarrow> error option \<times> model" where
  "look_for_errors line m =
     call (extract_regex_match ERROR_REGEX line 0) m (\<lambda>e.
       case e of
         None \<Rightarrow> (None, m)
       | Some err \<Rightarrow>
           if err = [] then (None, m)
           else (None, m\<lparr>errors := errors m @ [err]\<rparr>))"

definition next_step :: "error option \<times> model \<Rightarrow> (model \<Rightarrow> error option \<times> model) \<Rightarrow> error option \<times> model" where
  "next_step r f = (case r of (Some e, m) \<Rightarrow> (Some e, m) | (None, m) \<Rightarrow> f m)"

definition parse_line :: "string \<Rightarrow> model \<Rightarrow> error option \<times> model" where
  "parse_line line m =
     next_step (next_step (next_step (look_for_render_time line m)
       (gather_memory_usage line)) (look_for_warnings line)) (look_for_errors line)"

text \<open>The loop \<open>for line in self.raw_log\<close>; the body never assigns \<open>raw_log\<close>.\<close>

fun parse_lines_from :: "string list \<Rightarrow> model \<Rightarrow> error option \<times> model" where
  "parse_lines_from [] m = (None, m)"
| "parse_lines_from (line # ls) m = next_step (parse_line line m) (parse_lines_from ls)"

definition parse_log :: "model \<Rightarrow> error option \<times> model" where
  "parse_log m = parse_lines_from (raw_log m) m"

subsection \<open>The read stage and the callers of \<open>parse_log\<close>\<close>

text \<open>
  The file system is the environment of \<open>store_raw_log\<close>: a path names nothing, a file
  that cannot be opened for reading, a file whose bytes do not decode, or a text (decoded,
  its line ends translated to newlines, as text mode does). Python's \<open>open\<close> raises an
  OSError in the first two cases (the spec's FileAccessError), and \<open>readlines\<close> a
  UnicodeDecodeError in the third.
\<close>

datatype entry = Unreadable | Undecodable | Text string

type_synonym file_system = "string \<Rightarrow> entry option"

text \<open>\<open>readlines\<close>: the text cut after each newline, the newlines kept.\<close>

fun readlines :: "string \<Rightarrow> string list" where
  "readlines [] = []"
| "readlines (c # cs) =
     (if c = CHR 0x0A then [c] # readlines cs
      else (case readlines cs of [] \<Rightarrow> [[c]] | l # ls \<Rightarrow> (c # l) # ls))"

definition open_readlines :: "file_system \<Rightarrow> string \<Rightarrow> error + string list" where
  "open_readlines fs file_path =
     (case fs file_path of
        None \<Rightarrow> Inl FileAccessError
      | Some Unreadable \<Rightarrow> Inl FileAccessError
      | Some Undecodable \<Rightarrow> Inl DecodeError
      | Some (Text content) \<Rightarrow> Inr (readlines content))"

definition store_raw_log :: "file_system \<Rightarrow> string \<Rightarrow> model \<Rightarrow> error option \<times> model" where
  "store_raw_log fs file_path m =
     call (open_readlines fs file_path) m (\<lambda>ls. (None, m\<lparr>raw_log := ls\<rparr>))"

text \<open>
  \<open>set_tabs\<close>, \<open>browse_on_key_pressed\<close> and \<open>browse_on_click\<close> of \<open>MainWindow\<close>, as far
  as they act on the model; the widgets they build only read it. \<open>splitext\<close> stands for
  \<open>os.path.splitext\<close>, and \<open>chosen\<close> for the path the file dialog returned.
\<close>

definition set_tabs :: "file_system \<Rightarrow> string \<Rightarrow> model \<Rightarrow> error option \<times> model" where
  "set_tabs fs file_path m = next_step (store_raw_log fs file_path m) parse_log"

definition browse_on_key_pressed ::
  "(string \<Rightarrow> string \<times> string) \<Rightarrow> file_system \<Rightarrow> string \<Rightarrow> model \<Rightarrow> error option \<times> model" where
  "browse_on_key_pressed splitext fs file_path m =
     (let m0 = reset_data m
      in if \<not> (fs file_path \<noteq> None \<and> snd (splitext file_path) = ''.log'')
         then (None, m0)
         else set_tabs fs file_path m0)"

definition browse_on_click :: "string \<Rightarrow> file_system \<Rightarrow> model \<Rightarrow> error option \<times> model" where
  "browse_on_click chosen fs m =
     (let m0 = reset_data m
      in if chosen = [] then (None, m0) else set_tabs fs chosen m0)"

text \<open>
  The spec's \<open>parse(lines)\<close> is \<open>parse_log\<close> on a model that was reset and then given
  \<open>lines\<close> as its raw log: the state in which \<open>set_tabs\<close> calls it. \<open>init_model\<close> is the
  model as \<open>__init__\<close> builds it.
\<close>

definition init_model :: model where
  "init_model =
     \<lparr>raw_log = [], render_time = None, memory_usage = [], warnings = [], errors = []\<rparr>"

definition parse :: "string list \<Rightarrow> error option \<times> model" where
  "parse lines = parse_log ((reset_data init_model)\<lparr>raw_log := lines\<rparr>)"

subsection \<open>The vocabulary of the specification\<close>

text \<open>
  The text a marker rule captures, in the words of the spec: from the first occurrence
  of the marker to the end of the line, the marker included.
\<close>

fun spec_from_marker :: "string \<Rightarrow> string \<Rightarrow> string option" where
  "spec_from_marker w [] = (if w = [] then Some [] else None)"
| "spec_from_marker w (c # cs) =
     (if prefix w (c # cs)
      then Some (w @ takeWhile (\<lambda>x. x \<noteq> CHR 0x0A) (drop (length w) (c # cs)))
      else spec_from_marker w cs)"

text \<open>
  The tail of a render-time line: what follows the first occurrence of the marker that is
  followed by nothing but the rest of its line, that line being the last one of the string.
\<close>

definition tail_at :: "string \<Rightarrow> string option" where
  "tail_at s =
     (let t = drop (length ''render done in '') s
      in if prefix ''render done in '' s
            \<and> (dropWhile (\<lambda>x. x \<noteq> CHR 0x0A) t = [] \<or> dropWhile (\<lambda>x. x \<noteq> CHR 0x0A) t = [CHR 0x0A])
         then Some (takeWhile (\<lambda>x. x \<noteq> CHR 0x0A) t)
         else None)"

fun spec_render_tail :: "string \<Rightarrow> string option" where
  "spec_render_tail [] = tail_at []"
| "spec_render_tail (c # cs) =
     (case tail_at (c # cs) of Some t \<Rightarrow> Some t | None \<Rightarrow> spec_render_tail cs)"

text \<open>The shape of a memory sample: \<open>HH:MM:SS\<close>, spaces, digits, \<open>MB\<close>, spaces, a pipe.\<close>

fun time_label :: "string \<Rightarrow> bool" where
  "time_label [a, b, x, c, d, y, e, f] =
     (is_digit a \<and> is_digit b \<and> x = CHR '':'' \<and> is_digit c \<and> is_digit d \<and> y = CHR '':''
      \<and> is_digit e \<and> is_digit f)"
| "time_label _ = False"

definition spaces :: "string \<Rightarrow> bool" where
  "spaces sp = (sp \<noteq> [] \<and> list_all (\<lambda>c. c = CHR '' '') sp)"

definition digits :: "string \<Rightarrow> bool" where
  "digits ds = (ds \<noteq> [] \<and> list_all is_digit ds)"

definition sample_text :: "string \<Rightarrow> string \<Rightarrow> string \<Rightarrow> string \<Rightarrow> string" where
  "sample_text t sp1 ds sp2 = t @ sp1 @ ds @ ''MB'' @ sp2 @ ''|''"

definition sample_shape :: "string \<Rightarrow> string \<Rightarrow> string \<Rightarrow> string \<Rightarrow> bool" where
  "sample_shape t sp1 ds sp2 = (time_label t \<and> spaces sp1 \<and> digits ds \<and> spaces sp2)"

text \<open>A sample starts at the head of \<open>s\<close>.\<close>

definition starts_sample :: "string \<Rightarrow> bool" where
  "starts_sample s =
     (\<exists>t sp1 ds sp2. sample_shape t sp1 ds sp2 \<and> prefix (sample_text t sp1 ds sp2) s)"

text \<open>The elements of a list in the order of their first occurrences.\<close>

fun first_occurrences :: "'a list \<Rightarrow> 'a list" where
  "first_occurrences [] = []"
| "first_occurrences (x # xs) = x # filter (\<lambda>y. y \<noteq> x) (first_occurrences xs)"

text \<open>
  The entries of an association list, each key with the value of its first occurrence, in
  the order of the first occurrences.
\<close>

fun first_wins :: "('k \<times> 'v) list \<Rightarrow> ('k \<times> 'v) list" where
  "first_wins [] = []"
| "first_wins (p # ps) = p # filter (\<lambda>q. fst q \<noteq> fst p) (first_wins ps)"

text \<open>A line without the newline that ends it.\<close>

definition chomp :: "string \<Rightarrow> string" where
  "chomp s = (if s \<noteq> [] \<and> last s = CHR 0x0A then butlast s else s)"

text \<open>A line without its trailing spaces and newlines.\<close>

definition rstrip :: "string \<Rightarrow> string" where
  "rstrip s = rev (dropWhile (\<lambda>c. c = CHR '' '' \<or> c = CHR 0x0A) (rev s))"

text \<open>The four parsed fields of a model.\<close>

definition parsed :: "model \<Rightarrow> string option \<times> (string option \<times> string) list \<times> string list \<times> string list" where
  "parsed m = (render_time m, memory_usage m, warnings m, errors m)"

subsection \<open>Auxiliary functions of the proofs\<close>

text \<open>
  What \<open>extract_regex_match\<close> returns when it does not raise, the number of groups of a
  pattern, and the effect of one line on each field.
\<close>

definition capture :: "item list \<Rightarrow> string \<Rightarrow> nat \<Rightarrow> string option" where
  "capture regex string group_index =
     (case extract_regex_match regex string group_index of Inl e \<Rightarrow> None | Inr g \<Rightarrow> g)"

definition opens :: "item list \<Rightarrow> nat" where
  "opens r = length (filter (\<lambda>i. i = Open) r)"

definition render_upd :: "string \<Rightarrow> string option \<Rightarrow> string option" where
  "render_upd line old =
     (if truthy (capture RENDER_TIME_REGEX line 1) then capture RENDER_TIME_REGEX line 1 else old)"

definition mem_upd :: "string \<Rightarrow> (string option \<times> string) list \<Rightarrow> (string option \<times> string) list" where
  "mem_upd line d =
     (case capture MEMORY_USAGE_REGEX line 0 of
        None \<Rightarrow> d
      | Some mu \<Rightarrow>
          if mu = [] \<or> truthy (dict_get d (capture TIME_ELAPSED_REGEX mu 1)) then d
          else (case capture MEMORY_USAGE_TIME_REGEX mu 1 of
                  None \<Rightarrow> d
                | Some v \<Rightarrow> if v = [] then d else dict_set d (capture TIME_ELAPSED_REGEX mu 1) v))"

definition marked :: "item list \<Rightarrow> string \<Rightarrow> string list" where
  "marked regex line =
     (case capture regex line 0 of None \<Rightarrow> [] | Some w \<Rightarrow> if w = [] then [] else [w])"

text \<open>Adding an entry to a dict unless its key is there.\<close>

definition add_new :: "('k \<times> 'v) list \<Rightarrow> 'k \<times> 'v \<Rightarrow> ('k \<times> 'v) list" where
  "add_new d p = (if fst p \<in> fst ` set d then d else d @ [p])"

text \<open>An item that can neither consume a newline nor test for the end of the string.\<close>

fun blind_item :: "item \<Rightarrow> bool" where
  "blind_item (Atom a) = (\<not> accepts a (CHR 0x0A))"
| "blind_item (Repeat a lo hi) = (\<not> accepts a (CHR 0x0A))"
| "blind_item Open = True"
| "blind_item Close = True"
| "blind_item Eol = False"

section \<open>Properties\<close>

subsection \<open>The loop body, field by field\<close>

lemma next_step_simps [simp]:
  "next_step (None, m) f = f m"
  "next_step (Some e, m) f = (Some e, m)"
  by (simp_all add: next_step_def)

lemma call_simps [simp]:
  "call (Inr x) m k = k x"
  "call (Inl e) m k = (Some e, m)"
  by (simp_all add: call_def)

lemma first_some_SomeD:
  "first_some f xs = Some y \<Longrightarrow> \<exists>x \<in> set xs. f x = Some y"
  by (induction xs) (auto split: option.splits)

lemma first_some_None:
  "(\<And>x. x \<in> set xs \<Longrightarrow> f x = None) \<Longrightarrow> first_some f xs = None"
  by (induction xs) auto

lemma first_some_cong:
  "(\<And>x. x \<in> set xs \<Longrightarrow> f x = g x) \<Longrightarrow> first_some f xs = first_some g xs"
  by (induction xs) (auto split: option.splits)

lemma groups_Ch_append [simp]: "groups (map Ch xs @ ts) = groups ts"
  by (induction xs) auto

lemma chars_append [simp]: "chars (ts @ us) = chars ts @ chars us"
  by (induction ts rule: chars.induct) auto

lemma chars_map_Ch [simp]: "chars (map Ch xs) = xs"
  by (induction xs) auto

lemma rx_groups: "rx r s = Some t \<Longrightarrow> length (groups t) = opens r"
proof (induction r s arbitrary: t rule: rx.induct)
  case (3 a lo hi r s)
  let ?n = "length (takeWhile (accepts a) s)"
  let ?top = "case hi of None \<Rightarrow> ?n | Some h \<Rightarrow> min h ?n"
  let ?f = "\<lambda>k. map_option ((@) (map Ch (take k s))) (rx r (drop k s))"
  from "3.prems" have "first_some ?f (rev [lo..<Suc ?top]) = Some t"
    by (simp add: Let_def)
  then obtain k where k: "k \<in> set (rev [lo..<Suc ?top])" and m: "?f k = Some t"
    by (blast dest: first_some_SomeD)
  from m obtain t' where t': "rx r (drop k s) = Some t'" "t = map Ch (take k s) @ t'"
    by auto
  from "3.IH"[OF refl refl t'(1)] t'(2) show ?case
    by (simp add: opens_def)
qed (auto simp: opens_def split: list.splits if_splits)

lemma re_search_groups: "re_search r s = Some t \<Longrightarrow> length (groups t) = opens r"
  by (induction s) (auto split: option.splits dest: rx_groups)

lemma extract_total:
  "i \<le> opens r \<Longrightarrow> extract_regex_match r s i = Inr (capture r s i)"
  by (auto simp: extract_regex_match_def capture_def match_group_def
      split: option.splits dest: re_search_groups)

lemma opens_regexes [simp]:
  "opens RENDER_TIME_REGEX = 1" "opens MEMORY_USAGE_REGEX = 0" "opens TIME_ELAPSED_REGEX = 1"
  "opens MEMORY_USAGE_TIME_REGEX = 1" "opens WARNING_REGEX = 1" "opens ERROR_REGEX = 1"
  by (simp_all add: opens_def RENDER_TIME_REGEX_def MEMORY_USAGE_REGEX_def TIME_ELAPSED_REGEX_def
      MEMORY_USAGE_TIME_REGEX_def WARNING_REGEX_def ERROR_REGEX_def lits_def)

lemma look_for_render_time_eq:
  "look_for_render_time line m =
     (None, if truthy (capture RENDER_TIME_REGEX line 1)
            then m\<lparr>render_time := capture RENDER_TIME_REGEX line 1\<rparr> else m)"
  by (simp add: look_for_render_time_def extract_total)

lemma look_for_warnings_eq:
  "look_for_warnings line m =
     (None, case capture WARNING_REGEX line 0 of
              None \<Rightarrow> m
            | Some w \<Rightarrow> if w = [] then m else m\<lparr>warnings := warnings m @ [w]\<rparr>)"
  by (simp add: look_for_warnings_def extract_total split: option.splits)

lemma look_for_errors_eq:
  "look_for_errors line m =
     (None, case capture ERROR_REGEX line 0 of
              None \<Rightarrow> m
            | Some w \<Rightarrow> if w = [] then m else m\<lparr>errors := errors m @ [w]\<rparr>)"
  by (simp add: look_for_errors_def extract_total split: option.splits)

lemma gather_memory_usage_eq:
  "gather_memory_usage line m =
     (None,
      case capture MEMORY_USAGE_REGEX line 0 of
        None \<Rightarrow> m
      | Some mu \<Rightarrow>
          if mu = [] \<or> truthy (dict_get (memory_usage m) (capture TIME_ELAPSED_REGEX mu 1)) then m
          else (case capture MEMORY_USAGE_TIME_REGEX mu 1 of
                  None \<Rightarrow> m
                | Some v \<Rightarrow>
                    if v = [] then m
                    else m\<lparr>memory_usage :=
                           dict_set (memory_usage m) (capture TIME_ELAPSED_REGEX mu 1) v\<rparr>))"
  by (simp add: gather_memory_usage_def extract_total split: option.splits)


lemma parse_line_eq:
  "parse_line line m =
     (None, m\<lparr>render_time := render_upd line (render_time m),
              memory_usage := mem_upd line (memory_usage m),
              warnings := warnings m @ marked WARNING_REGEX line,
              errors := errors m @ marked ERROR_REGEX line\<rparr>)"
  by (simp add: parse_line_def look_for_render_time_eq gather_memory_usage_eq
      look_for_warnings_eq look_for_errors_eq render_upd_def mem_upd_def marked_def
      split: option.splits)

lemma parse_lines_from_eq:
  "parse_lines_from ls m =
     (None, m\<lparr>render_time := foldl (\<lambda>r l. render_upd l r) (render_time m) ls,
              memory_usage := foldl (\<lambda>d l. mem_upd l d) (memory_usage m) ls,
              warnings := warnings m @ concat (map (marked WARNING_REGEX) ls),
              errors := errors m @ concat (map (marked ERROR_REGEX) ls)\<rparr>)"
  by (induction ls arbitrary: m) (simp_all add: parse_line_eq)

lemma parse_eq:
  "parse ls =
     (None, \<lparr>raw_log = ls,
             render_time = foldl (\<lambda>r l. render_upd l r) None ls,
             memory_usage = foldl (\<lambda>d l. mem_upd l d) [] ls,
             warnings = concat (map (marked WARNING_REGEX) ls),
             errors = concat (map (marked ERROR_REGEX) ls)\<rparr>)"
  by (simp add: parse_def parse_log_def parse_lines_from_eq reset_data_def init_model_def)

lemma reset_data_eq: "reset_data m = init_model"
  by (simp add: reset_data_def init_model_def)

lemma parse_log_fst: "fst (parse_log m) = None"
  by (simp add: parse_log_def parse_lines_from_eq)

lemma parse_log_raw_log: "raw_log (snd (parse_log m)) = raw_log m"
  by (simp add: parse_log_def parse_lines_from_eq)

lemma no_match_capture: "re_search r s = None \<Longrightarrow> capture r s i = None"
  by (simp add: capture_def extract_regex_match_def)

subsection \<open>Totality, frame and determinism\<close>

text \<open>
  Claim C5. \<open>parse_log\<close> raises nothing, whatever the model holds and whatever the lines
  are: the exception component of its result is \<open>None\<close>, for the stored raw log of any
  model and for \<open>parse\<close> on any list of strings. A line on which none of the four rules
  finds a match leaves the model as it was.
\<close>

theorem parse_total:
  "fst (parse_log m) = None
   \<and> fst (parse ls) = None
   \<and> (re_search RENDER_TIME_REGEX line = None \<and> re_search MEMORY_USAGE_REGEX line = None
        \<and> re_search WARNING_REGEX line = None \<and> re_search ERROR_REGEX line = None
      \<longrightarrow> parse_line line m = (None, m))"
  by (simp add: parse_log_fst parse_def parse_line_eq render_upd_def mem_upd_def marked_def
      no_match_capture)

theorem parse_total_witness:
  "re_search RENDER_TIME_REGEX ''INFO: ok'' = None
   \<and> re_search MEMORY_USAGE_REGEX ''INFO: ok'' = None
   \<and> re_search WARNING_REGEX ''INFO: ok'' = None
   \<and> re_search ERROR_REGEX ''INFO: ok'' = None
   \<and> parse_line ''INFO: ok'' init_model = (None, init_model)
   \<and> fst (parse [''INFO: ok'', ''12:3'']) = None"
proof -
  have h: "re_search RENDER_TIME_REGEX ''INFO: ok'' = None
     \<and> re_search MEMORY_USAGE_REGEX ''INFO: ok'' = None
     \<and> re_search WARNING_REGEX ''INFO: ok'' = None
     \<and> re_search ERROR_REGEX ''INFO: ok'' = None"
    by code_simp
  from parse_total [of init_model "[''INFO: ok'', ''12:3'']" "''INFO: ok''"] h
  show ?thesis by blast
qed

text \<open>
  Claim C10. The parse pass leaves the stored raw log as it found it, so after
  \<open>set_tabs\<close> the raw log is the list of lines that the read stage stored.
\<close>

theorem parse_log_frame:
  "raw_log (snd (parse_log m)) = raw_log m
   \<and> raw_log (snd (set_tabs fs file_path m)) = raw_log (snd (store_raw_log fs file_path m))"
  by (cases "store_raw_log fs file_path m" rule: prod.exhaust [case_names p])
   (auto simp: parse_log_raw_log set_tabs_def next_step_def split: option.splits)

text \<open>
  Claim C4. \<open>parse_log\<close> itself appends to what the model holds, and every caller
  resets the model before it loads a file. So the result of a parse does not depend on
  what the model held before: \<open>parse_log\<close> on a reset model that holds the lines \<open>ls\<close>
  is \<open>parse ls\<close> whatever the earlier state \<open>m\<close> was, and the two entry points return
  the same result and model from any two earlier states, the state an earlier parse of
  the same file left among them.
\<close>

theorem parse_pure:
  "parse_log ((reset_data m)\<lparr>raw_log := ls\<rparr>) = parse ls
   \<and> browse_on_click chosen fs m = browse_on_click chosen fs m'
   \<and> browse_on_key_pressed splitext fs file_path m = browse_on_key_pressed splitext fs file_path m'"
  by (simp add: parse_def browse_on_click_def browse_on_key_pressed_def reset_data_eq)

text \<open>
  Claim C8. \<open>store_raw_log\<close> raises FileAccessError exactly when the path names nothing
  or names a file that cannot be opened for reading; when the read stage raises,
  \<open>set_tabs\<close> stops with that exception and the model untouched, so \<open>parse_log\<close> has
  not run; and after \<open>browse_on_key_pressed\<close> on such a path the four parsed fields are
  empty.
\<close>

theorem read_stage_failure:
  "(fst (store_raw_log fs file_path m) = Some FileAccessError
      \<longleftrightarrow> fs file_path = None \<or> fs file_path = Some Unreadable)
   \<and> (fst (store_raw_log fs file_path m) \<noteq> None
      \<longrightarrow> set_tabs fs file_path m = (fst (store_raw_log fs file_path m), m))
   \<and> (fs file_path = None \<or> fs file_path = Some Unreadable
      \<longrightarrow> parsed (snd (browse_on_key_pressed splitext fs file_path m)) = (None, [], [], []))"
proof -
  have a: "fst (store_raw_log fs file_path m) = Some FileAccessError
      \<longleftrightarrow> fs file_path = None \<or> fs file_path = Some Unreadable"
    by (auto simp: store_raw_log_def open_readlines_def split: option.splits entry.splits)
  have b: "fst (store_raw_log fs file_path m) \<noteq> None
      \<longrightarrow> set_tabs fs file_path m = (fst (store_raw_log fs file_path m), m)"
    by (auto simp: store_raw_log_def open_readlines_def set_tabs_def
        split: option.splits entry.splits)
  have c: "fs file_path = None \<or> fs file_path = Some Unreadable
      \<longrightarrow> parsed (snd (browse_on_key_pressed splitext fs file_path m)) = (None, [], [], [])"
    by (auto simp: browse_on_key_pressed_def Let_def set_tabs_def store_raw_log_def
        open_readlines_def parsed_def reset_data_def)
  from a b c show ?thesis by blast
qed

theorem read_stage_failure_witness:
  "fst (store_raw_log (\<lambda>p. None) ''missing.log'' (init_model\<lparr>raw_log := [''WARNING: stale'']\<rparr>))
     = Some FileAccessError
   \<and> set_tabs (\<lambda>p. None) ''missing.log'' (init_model\<lparr>raw_log := [''WARNING: stale'']\<rparr>)
     = (Some FileAccessError, init_model\<lparr>raw_log := [''WARNING: stale'']\<rparr>)
   \<and> parsed (snd (browse_on_key_pressed (\<lambda>p. (''missing'', ''.log'')) (\<lambda>p. None) ''missing.log''
        (init_model\<lparr>raw_log := [''WARNING: stale'']\<rparr>))) = (None, [], [], [])"
  using read_stage_failure [of "\<lambda>p. None" "''missing.log''" "init_model\<lparr>raw_log := [''WARNING: stale'']\<rparr>"
      "\<lambda>p. (''missing'', ''.log'')"]
  by simp

subsection \<open>Matching: literals and greedy repetitions\<close>

lemma rx_lits:
  "rx (lits w @ r) s =
     (if prefix w s then map_option ((@) (map Ch w)) (rx r (drop (length w) s)) else None)"
proof (induction w arbitrary: s)
  case Nil
  show ?case by (cases "rx r s") (simp_all add: lits_def)
next
  case (Cons c w)
  show ?case
  proof (cases s)
    case Nil
    then show ?thesis by (simp add: lits_def)
  next
    case (Cons d ds)
    with Cons.IH [of ds] show ?thesis
      by (auto simp: lits_def option.map_comp comp_def)
  qed
qed

lemma upt_rev_top: "lo \<le> n \<Longrightarrow> rev [lo..<Suc n] = n # rev [lo..<n]"
  by simp

lemma takeWhile_nth_accepts:
  assumes "k < length (takeWhile P xs)"
  shows "drop k xs = xs ! k # drop (Suc k) xs \<and> P (xs ! k)"
proof -
  from assms have kl: "k < length xs"
    using length_takeWhile_le [of P xs] by simp
  from assms have "takeWhile P xs ! k \<in> set (takeWhile P xs)"
    by simp
  then have "P (takeWhile P xs ! k)"
    by (rule set_takeWhileD [THEN conjunct2])
  with assms kl show ?thesis
    by (simp add: takeWhile_nth Cons_nth_drop_Suc)
qed

lemma rx_Repeat_unbounded:
  "rx (Repeat a lo None # r) s =
     (if lo \<le> length (takeWhile (accepts a) s)
      then (case rx r (dropWhile (accepts a) s) of
              Some t \<Rightarrow> Some (map Ch (takeWhile (accepts a) s) @ t)
            | None \<Rightarrow>
                first_some (\<lambda>k. map_option ((@) (map Ch (take k s))) (rx r (drop k s)))
                  (rev [lo..<length (takeWhile (accepts a) s)]))
      else None)"
  by (auto simp: Let_def takeWhile_eq_take [symmetric] dropWhile_eq_drop [symmetric]
      split: option.splits)

lemma rx_Repeat_det:
  assumes "\<And>c cs. accepts a c \<Longrightarrow> rx r (c # cs) = None"
  shows "rx (Repeat a lo None # r) s =
     (if lo \<le> length (takeWhile (accepts a) s)
      then map_option ((@) (map Ch (takeWhile (accepts a) s))) (rx r (dropWhile (accepts a) s))
      else None)"
proof -
  have "first_some (\<lambda>k. map_option ((@) (map Ch (take k s))) (rx r (drop k s)))
          (rev [lo..<length (takeWhile (accepts a) s)]) = None"
  proof (rule first_some_None)
    fix k assume "k \<in> set (rev [lo..<length (takeWhile (accepts a) s)])"
    then have "k < length (takeWhile (accepts a) s)" by simp
    from takeWhile_nth_accepts [OF this] assms show
      "map_option ((@) (map Ch (take k s))) (rx r (drop k s)) = None"
      by simp
  qed
  then show ?thesis
    unfolding rx_Repeat_unbounded by (simp split: option.splits)
qed

lemma rx_Repeat_exact:
  "rx (Repeat a n (Some n) # r) s =
     (if n \<le> length (takeWhile (accepts a) s)
      then map_option ((@) (map Ch (take n s))) (rx r (drop n s))
      else None)"
  by (auto simp: Let_def min_def split: option.splits)

subsection \<open>The marker patterns and the render-time pattern\<close>

declare rx.simps(3) [simp del]

lemma accepts_Dot: "accepts Dot = (\<lambda>x. x \<noteq> CHR 0x0A)"
  by (rule ext) simp

lemma rx_marker:
  "rx (lits w @ [Open, Repeat Dot 0 None, Close]) s =
     (if prefix w s
      then Some (map Ch w @ MOpen # map Ch (takeWhile (\<lambda>x. x \<noteq> CHR 0x0A) (drop (length w) s))
                 @ [MClose])
      else None)"
  by (simp add: rx_lits rx_Repeat_unbounded accepts_Dot)

lemma re_search_marker:
  "w \<noteq> [] \<Longrightarrow>
   map_option chars (re_search (lits w @ [Open, Repeat Dot 0 None, Close]) s) = spec_from_marker w s"
  by (induction s) (simp_all add: rx_marker)

lemma capture_0: "capture r s 0 = map_option chars (re_search r s)"
  by (simp add: capture_def extract_regex_match_def match_group_def split: option.splits)

lemma capture_1:
  assumes "0 < opens r"
  shows "capture r s (Suc 0) = map_option (\<lambda>t. hd (groups t)) (re_search r s)"
proof (cases "re_search r s")
  case None
  then show ?thesis by (simp add: capture_def extract_regex_match_def)
next
  case (Some t)
  with assms re_search_groups [OF Some] have "groups t \<noteq> []" by auto
  with Some show ?thesis
    by (cases "groups t") (simp_all add: capture_def extract_regex_match_def match_group_def)
qed

lemma spec_from_marker_prefix: "spec_from_marker w s = Some x \<Longrightarrow> prefix w x"
  by (induction s) (auto split: if_splits)

lemma marked_marker:
  "w \<noteq> [] \<Longrightarrow>
   marked (lits w @ [Open, Repeat Dot 0 None, Close]) line =
     (case spec_from_marker w line of None \<Rightarrow> [] | Some x \<Rightarrow> [x])"
  by (auto simp: marked_def capture_0 re_search_marker split: option.splits
      dest: spec_from_marker_prefix)

lemma concat_map_option:
  "concat (map (\<lambda>l. case f l of None \<Rightarrow> [] | Some x \<Rightarrow> [x]) ls) = List.map_filter f ls"
  by (induction ls) (simp_all split: option.splits)

lemma marked_concat:
  "w \<noteq> [] \<Longrightarrow>
   concat (map (marked (lits w @ [Open, Repeat Dot 0 None, Close])) ls) =
     List.map_filter (spec_from_marker w) ls"
  by (induction ls) (simp_all add: marked_marker split: option.splits)

lemma warnings_parse: "warnings (snd (parse ls)) = List.map_filter (spec_from_marker ''WARNING'') ls"
  by (simp add: parse_eq WARNING_REGEX_def marked_concat)

lemma errors_parse: "errors (snd (parse ls)) = List.map_filter (spec_from_marker ''ERROR'') ls"
  by (simp add: parse_eq ERROR_REGEX_def marked_concat)

lemma rx_dot_star_eol:
  "rx [Repeat Dot 0 None, Close, Eol] t =
     (if dropWhile (\<lambda>x. x \<noteq> CHR 0x0A) t = [] \<or> dropWhile (\<lambda>x. x \<noteq> CHR 0x0A) t = [CHR 0x0A]
      then Some (map Ch (takeWhile (\<lambda>x. x \<noteq> CHR 0x0A) t) @ [MClose])
      else None)"
proof -
  have "rx [Repeat Dot 0 None, Close, Eol] t =
          map_option ((@) (map Ch (takeWhile (accepts Dot) t)))
            (rx [Close, Eol] (dropWhile (accepts Dot) t))"
    by (subst rx_Repeat_det) simp_all
  then show ?thesis
    by (simp add: accepts_Dot del: dropWhile_eq_Nil_conv)
qed

lemma rx_render:
  "rx RENDER_TIME_REGEX s =
     map_option (\<lambda>t. map Ch ''render done in '' @ MOpen # map Ch t @ [MClose]) (tail_at s)"
  by (simp add: RENDER_TIME_REGEX_def rx_lits rx_dot_star_eol tail_at_def Let_def
      del: dropWhile_eq_Nil_conv)

lemma takeWhile_Ch_MClose [simp]:
  "takeWhile (\<lambda>t. t \<noteq> MClose) (map Ch xs @ MClose # ts) = map Ch xs"
  by (induction xs) auto

lemma hd_groups_render [simp]:
  "hd (groups (map Ch w @ MOpen # map Ch t @ [MClose])) = t"
  by simp

lemma capture_render: "capture RENDER_TIME_REGEX s (Suc 0) = spec_render_tail s"
proof -
  have h: "map_option (\<lambda>t. hd (groups t)) (rx RENDER_TIME_REGEX u) = tail_at u" for u
    unfolding rx_render by (cases "tail_at u") (simp_all del: map_map)
  have "map_option (\<lambda>t. hd (groups t)) (re_search RENDER_TIME_REGEX s) = spec_render_tail s"
  proof (induction s)
    case Nil
    show ?case by (simp add: h)
  next
    case (Cons a s)
    show ?case
    proof (cases "rx RENDER_TIME_REGEX (a # s)")
      case None
      with h [of "a # s"] have "tail_at (a # s) = None" by simp
      with None Cons.IH show ?thesis by simp
    next
      case (Some t)
      with h [of "a # s"] have "tail_at (a # s) = Some (hd (groups t))" by simp
      with Some show ?thesis by simp
    qed
  qed
  then show ?thesis by (simp add: capture_1)
qed

lemma render_upd_eq:
  "render_upd line old =
     (case spec_render_tail line of
        None \<Rightarrow> old
      | Some t \<Rightarrow> if t = [] then old else Some t)"
  by (simp add: render_upd_def capture_render split: option.splits)

lemma foldl_render_upd:
  "foldl (\<lambda>r l. render_upd l r) old ls =
     (case filter (\<lambda>t. t \<noteq> []) (List.map_filter spec_render_tail ls) of
        [] \<Rightarrow> old
      | t # ts \<Rightarrow> Some (last (t # ts)))"
proof (induction ls arbitrary: old)
  case Nil
  show ?case by simp
next
  case (Cons l ls)
  have "foldl (\<lambda>r l. render_upd l r) old (l # ls) =
          (case filter (\<lambda>t. t \<noteq> []) (List.map_filter spec_render_tail ls) of
             [] \<Rightarrow> render_upd l old
           | t # ts \<Rightarrow> Some (last (t # ts)))"
    by (simp only: foldl_Cons Cons.IH)
  then show ?case
    by (simp add: render_upd_eq split: option.splits list.splits)
qed

lemma extract_render: "extract_regex_match RENDER_TIME_REGEX line (Suc 0) = Inr (spec_render_tail line)"
  by (simp add: extract_total capture_render)

lemma render_time_parse:
  "render_time (snd (parse ls)) =
     (case filter (\<lambda>t. t \<noteq> []) (List.map_filter spec_render_tail ls) of
        [] \<Rightarrow> None
      | t # ts \<Rightarrow> Some (last (t # ts)))"
  by (simp add: parse_eq foldl_render_upd)

lemma tail_at_no_prefix: "\<not> prefix ''render done in '' s \<Longrightarrow> tail_at s = None"
  by (simp add: tail_at_def)

lemma spec_render_tail_skip:
  "\<forall>j<length pre. tail_at (drop j (pre @ s)) = None \<Longrightarrow>
   spec_render_tail (pre @ s) = spec_render_tail s"
proof (induction pre)
  case Nil
  show ?case by simp
next
  case (Cons c pre)
  from Cons.prems have "tail_at (drop 0 ((c # pre) @ s)) = None" by blast
  then have h0: "tail_at (c # pre @ s) = None" by simp
  have "\<forall>j<length pre. tail_at (drop j (pre @ s)) = None"
  proof (intro allI impI)
    fix j assume "j < length pre"
    then have "Suc j < length (c # pre)" by simp
    with Cons.prems have "tail_at (drop (Suc j) ((c # pre) @ s)) = None" by blast
    then show "tail_at (drop j (pre @ s)) = None" by simp
  qed
  with Cons.IH h0 show ?case by simp
qed

lemma spec_render_tail_marker_end:
  assumes "eol = [] \<or> eol = [CHR 0x0A]"
  shows "spec_render_tail (''render done in '' @ eol) = Some []"
proof -
  have "spec_render_tail (''render done in '' @ []) = Some []"
    by code_simp
  moreover have "spec_render_tail (''render done in '' @ [CHR 0x0A]) = Some []"
    by code_simp
  ultimately show ?thesis using assms by blast
qed

subsection \<open>Warnings, errors and the render time\<close>

text \<open>
  Claim C3. After \<open>parse\<close>, \<open>warnings\<close> holds one entry for each line that contains
  \<open>WARNING\<close>, in the order of the lines and with repetitions kept; the entry is the
  text from the first \<open>WARNING\<close> of the line to the end of that line. \<open>errors\<close> is built
  the same way from \<open>ERROR\<close>. The spec's example gives its two warnings in order, and one
  line that holds both markers adds an entry to both lists.
\<close>

theorem warnings_errors_in_order:
  "warnings (snd (parse ls)) = List.map_filter (spec_from_marker ''WARNING'') ls
   \<and> errors (snd (parse ls)) = List.map_filter (spec_from_marker ''ERROR'') ls
   \<and> warnings (snd (parse [''WARNING: low memory'', ''INFO: ok'', ''WARNING: disk slow'']))
       = [''WARNING: low memory'', ''WARNING: disk slow'']
   \<and> parsed (snd (parse [''ERROR after WARNING, twice'']))
       = (None, [], [''WARNING, twice''], [''ERROR after WARNING, twice''])"
proof -
  have a: "warnings (snd (parse [''WARNING: low memory'', ''INFO: ok'', ''WARNING: disk slow'']))
       = [''WARNING: low memory'', ''WARNING: disk slow'']"
    by code_simp
  have b: "parsed (snd (parse [''ERROR after WARNING, twice'']))
       = (None, [], [''WARNING, twice''], [''ERROR after WARNING, twice''])"
    by code_simp
  from a b warnings_parse [of ls] errors_parse [of ls] show ?thesis
    by blast
qed

text \<open>
  Claim C2, as stated, fails: the last line that matches \<open>render done in <TAIL>\<close> may
  capture the empty tail, and then the render time stored before it stays. Here the last
  matching line captures the empty string and the stored render time is \<open>10s\<close>.
\<close>

theorem render_time_last_match_counterexample:
  "extract_regex_match RENDER_TIME_REGEX ''render done in '' 1 = Inr (Some [])
   \<and> render_time (snd (parse [''render done in 10s'', ''render done in ''])) = Some ''10s''"
  by code_simp

text \<open>
  Claim C2, amended. What \<open>extract_regex_match\<close> captures on a line is the tail after
  the first matching occurrence of the marker, whatever text precedes it. After
  \<open>parse\<close> the stored render time is the tail of the last line whose captured tail is
  not empty, and it is absent when no line captures a non-empty tail. The spec's example
  yields \<open>20s\<close>.
\<close>

theorem render_time_last_nonempty:
  "extract_regex_match RENDER_TIME_REGEX line 1 = Inr (spec_render_tail line)
   \<and> render_time (snd (parse ls)) =
       (case filter (\<lambda>t. t \<noteq> []) (List.map_filter spec_render_tail ls) of
          [] \<Rightarrow> None
        | t # ts \<Rightarrow> Some (last (t # ts)))
   \<and> render_time (snd (parse [''render done in 10s'', ''render done in 20s''])) = Some ''20s''
   \<and> render_time (snd (parse [''[12:00] render done in 1m 02s'' @ [CHR 0x0A]])) = Some ''1m 02s''"
proof -
  have a: "render_time (snd (parse [''render done in 10s'', ''render done in 20s''])) = Some ''20s''"
    by code_simp
  have b: "render_time (snd (parse [''[12:00] render done in 1m 02s'' @ [CHR 0x0A]])) = Some ''1m 02s''"
    by code_simp
  have c: "extract_regex_match RENDER_TIME_REGEX line 1 = Inr (spec_render_tail line)"
    using extract_render [of line] by (simp only: One_nat_def)
  from a b c render_time_parse [of ls] show ?thesis
    by blast
qed

text \<open>
  Claim C9. A line that ends with the marker \<open>render done in \<close> (a final newline
  apart), and in which the marker does not occur earlier, captures the empty tail and
  does not change the stored render time: a render time stored before survives, and such
  a line alone leaves the render time absent.
\<close>

theorem empty_tail_keeps_render_time:
  assumes "eol = [] \<or> eol = [CHR 0x0A]"
    and "line = pre @ ''render done in '' @ eol"
    and "\<forall>j<length pre. \<not> prefix ''render done in '' (drop j line)"
  shows "extract_regex_match RENDER_TIME_REGEX line 1 = Inr (Some [])
   \<and> render_time (snd (parse_line line m)) = render_time m
   \<and> render_time (snd (parse [line])) = None
   \<and> render_time (snd (parse (ls @ [line]))) = render_time (snd (parse ls))"
proof -
  from assms(2,3) have "\<forall>j<length pre. tail_at (drop j (pre @ ''render done in '' @ eol)) = None"
    by (blast intro: tail_at_no_prefix)
  then have "spec_render_tail line = spec_render_tail (''render done in '' @ eol)"
    unfolding assms(2) by (rule spec_render_tail_skip)
  with assms(1) have t: "spec_render_tail line = Some []"
    by (simp only: spec_render_tail_marker_end)
  then have u: "render_upd line old = old" for old
    by (simp add: render_upd_eq)
  from t have "extract_regex_match RENDER_TIME_REGEX line 1 = Inr (Some [])"
    using extract_render [of line] by (simp only: One_nat_def)
  moreover have "render_time (snd (parse_line line m)) = render_time m"
    by (simp add: parse_line_eq u)
  moreover have "render_time (snd (parse [line])) = None"
    by (simp add: parse_eq u)
  moreover have "render_time (snd (parse (ls @ [line]))) = render_time (snd (parse ls))"
    by (simp add: parse_eq u)
  ultimately show ?thesis by blast
qed

theorem empty_tail_keeps_render_time_witness:
  "extract_regex_match RENDER_TIME_REGEX (''f7 render done in '' @ [CHR 0x0A]) 1 = Inr (Some [])
   \<and> render_time (snd (parse_line (''f7 render done in '' @ [CHR 0x0A])
        (init_model\<lparr>render_time := Some ''10s''\<rparr>))) = Some ''10s''
   \<and> render_time (snd (parse [''f7 render done in '' @ [CHR 0x0A]])) = None
   \<and> render_time (snd (parse ([''render done in 10s''] @ [''f7 render done in '' @ [CHR 0x0A]])))
       = render_time (snd (parse [''render done in 10s'']))"
proof -
  have h: "\<forall>j<length ''f7 ''. \<not> prefix ''render done in '' (drop j (''f7 render done in '' @ [CHR 0x0A]))"
    by (simp add: less_Suc_eq)
  have e: "[CHR 0x0A] = [] \<or> [CHR 0x0A] = [CHR 0x0A]" by simp
  have l: "''f7 render done in '' @ [CHR 0x0A] = ''f7 '' @ ''render done in '' @ [CHR 0x0A]" by simp
  have r: "render_time (init_model\<lparr>render_time := Some ''10s''\<rparr>) = Some ''10s''" by simp
  from empty_tail_keeps_render_time [OF e l h,
      where m = "init_model\<lparr>render_time := Some ''10s''\<rparr>" and ls = "[''render done in 10s'']"] r
  show ?thesis by (simp only:)
qed

subsection \<open>The memory-usage mapping\<close>

lemma truthy_dict_get:
  assumes "\<forall>p\<in>set d. snd p \<noteq> []"
  shows "truthy (dict_get d k) \<longleftrightarrow> k \<in> fst ` set d"
proof (cases "map_of d k")
  case None
  then have "k \<notin> fst ` set d" by (simp add: map_of_eq_None_iff)
  with None show ?thesis by (simp add: dict_get_def)
next
  case (Some v)
  then have m: "(k, v) \<in> set d" by (rule map_of_SomeD)
  with assms have "v \<noteq> []" by force
  moreover from m have "k \<in> fst ` set d" by force
  ultimately show ?thesis using Some by (simp add: dict_get_def)
qed

lemma dict_set_absent: "k \<notin> fst ` set d \<Longrightarrow> dict_set d k v = d @ [(k, v)]"
  by (induction d) auto


lemma mem_upd_empty:
  "mem_upd line [] =
     (case capture MEMORY_USAGE_REGEX line 0 of
        None \<Rightarrow> []
      | Some mu \<Rightarrow>
          if mu = [] then []
          else (case capture MEMORY_USAGE_TIME_REGEX mu 1 of
                  None \<Rightarrow> []
                | Some v \<Rightarrow> if v = [] then [] else [(capture TIME_ELAPSED_REGEX mu 1, v)]))"
  by (simp add: mem_upd_def dict_get_def split: option.splits)

lemma mem_upd_add_new:
  assumes "\<forall>p\<in>set d. snd p \<noteq> []"
  shows "mem_upd line d = foldl add_new d (mem_upd line [])"
  unfolding mem_upd_empty
  by (simp add: mem_upd_def truthy_dict_get [OF assms] dict_set_absent add_new_def
      split: option.splits)

lemma add_new_vals:
  "\<forall>p\<in>set d. snd p \<noteq> [] \<Longrightarrow> \<forall>p\<in>set ps. snd p \<noteq> [] \<Longrightarrow>
   \<forall>p\<in>set (foldl add_new d ps). snd p \<noteq> []"
proof (induction ps arbitrary: d)
  case Nil
  then show ?case by simp
next
  case (Cons p ps)
  from Cons.prems have "\<forall>q\<in>set (add_new d p). snd q \<noteq> []"
    by (auto simp: add_new_def)
  moreover from Cons.prems have "\<forall>q\<in>set ps. snd q \<noteq> []"
    by simp
  ultimately have "\<forall>q\<in>set (foldl add_new (add_new d p) ps). snd q \<noteq> []"
    by (rule Cons.IH)
  then show ?case by simp
qed

lemma mem_upd_empty_vals: "\<forall>p\<in>set (mem_upd line []). snd p \<noteq> []"
  by (auto simp: mem_upd_empty split: option.splits if_splits)

lemma foldl_mem_upd:
  assumes "\<forall>p\<in>set d. snd p \<noteq> []"
  shows "foldl (\<lambda>d l. mem_upd l d) d ls = foldl add_new d (concat (map (\<lambda>l. mem_upd l []) ls))"
  using assms
proof (induction ls arbitrary: d)
  case Nil
  show ?case by simp
next
  case (Cons l ls)
  have v: "\<forall>p\<in>set (mem_upd l d). snd p \<noteq> []"
    unfolding mem_upd_add_new [OF Cons.prems]
    by (rule add_new_vals [OF Cons.prems mem_upd_empty_vals])
  have "foldl (\<lambda>d l. mem_upd l d) d (l # ls)
        = foldl add_new (mem_upd l d) (concat (map (\<lambda>l. mem_upd l []) ls))"
    by (simp only: foldl_Cons Cons.IH [OF v])
  also have "\<dots> = foldl add_new (foldl add_new d (mem_upd l [])) (concat (map (\<lambda>l. mem_upd l []) ls))"
    by (simp only: mem_upd_add_new [OF Cons.prems])
  also have "\<dots> = foldl add_new d (concat (map (\<lambda>l. mem_upd l []) (l # ls)))"
    by simp
  finally show ?case .
qed

lemma filter_keys_absorb:
  "k \<in> K \<Longrightarrow>
   filter (\<lambda>q. fst q \<notin> K) (filter (\<lambda>q. fst q \<noteq> k) xs) = filter (\<lambda>q. fst q \<notin> K) xs"
  by (induction xs) auto

lemma foldl_add_new:
  "foldl add_new d ps = d @ filter (\<lambda>q. fst q \<notin> fst ` set d) (first_wins ps)"
proof (induction ps arbitrary: d)
  case Nil
  show ?case by simp
next
  case (Cons p ps)
  show ?case
  proof (cases "fst p \<in> fst ` set d")
    case True
    then have "add_new d p = d" by (simp add: add_new_def)
    with True show ?thesis
      by (simp add: Cons.IH filter_keys_absorb del: filter_filter)
  next
    case False
    then have "add_new d p = d @ [p]" by (simp add: add_new_def)
    with False show ?thesis
      by (simp add: Cons.IH)
  qed
qed

lemma memory_usage_parse:
  "memory_usage (snd (parse ls)) = first_wins (concat (map (\<lambda>l. memory_usage (snd (parse [l]))) ls))"
proof -
  have "memory_usage (snd (parse [l])) = mem_upd l []" for l
    by (simp add: parse_eq)
  then show ?thesis
    by (simp add: parse_eq foldl_mem_upd foldl_add_new)
qed

lemma first_occurrences_keys: "first_occurrences (map fst ps) = map fst (first_wins ps)"
  by (induction ps) (simp_all add: filter_map comp_def)

lemma first_wins_keys: "map fst (first_wins ps) = first_occurrences (map fst ps)"
  by (simp only: first_occurrences_keys)

lemma first_occurrences_set: "set (first_occurrences xs) = set xs"
  by (induction xs) auto

lemma first_occurrences_distinct: "distinct (first_occurrences xs)"
  by (induction xs) (simp_all add: first_occurrences_set)

lemma first_wins_append:
  "first_wins (ps @ qs) = first_wins ps @ filter (\<lambda>q. fst q \<notin> fst ` set ps) (first_wins qs)"
proof -
  have e: "foldl add_new [] xs = first_wins xs" for xs :: "('a \<times> 'b) list"
    by (simp add: foldl_add_new)
  have "fst ` set (first_wins ps) = set (map fst (first_wins ps))"
    by simp
  also have "\<dots> = fst ` set ps"
    by (simp only: first_wins_keys first_occurrences_set) simp
  finally have k: "fst ` set (first_wins ps) = fst ` set ps" .
  have "first_wins (ps @ qs) = foldl add_new (foldl add_new [] ps) qs"
    by (simp only: e [symmetric] foldl_append)
  also have "\<dots> = foldl add_new (first_wins ps) qs"
    by (simp only: e)
  also have "\<dots> = first_wins ps @ filter (\<lambda>q. fst q \<notin> fst ` set ps) (first_wins qs)"
    by (simp only: foldl_add_new k)
  finally show ?thesis .
qed

text \<open>
  Claim C6. After \<open>parse\<close> the keys of \<open>memory_usage\<close> are pairwise distinct and stand
  in the order in which the lines of the log first bring them; \<open>warnings\<close> and \<open>errors\<close>
  are the contributions of the lines in line order; and what the pass has stored after
  the lines \<open>ls\<close> is still there, at the same place, after any further lines: each of
  the three collections after \<open>ls\<close> is a prefix of the collection after \<open>ls @ later\<close>.
\<close>

theorem parse_invariants:
  "distinct (map fst (memory_usage (snd (parse ls))))
   \<and> map fst (memory_usage (snd (parse ls)))
       = first_occurrences (concat (map (\<lambda>l. map fst (memory_usage (snd (parse [l])))) ls))
   \<and> warnings (snd (parse ls)) = concat (map (\<lambda>l. warnings (snd (parse [l]))) ls)
   \<and> errors (snd (parse ls)) = concat (map (\<lambda>l. errors (snd (parse [l]))) ls)
   \<and> prefix (memory_usage (snd (parse ls))) (memory_usage (snd (parse (ls @ later))))
   \<and> prefix (warnings (snd (parse ls))) (warnings (snd (parse (ls @ later))))
   \<and> prefix (errors (snd (parse ls))) (errors (snd (parse (ls @ later))))"
proof -
  have k: "map fst (memory_usage (snd (parse ls)))
       = first_occurrences (concat (map (\<lambda>l. map fst (memory_usage (snd (parse [l])))) ls))"
    by (simp add: memory_usage_parse [of ls] first_wins_keys map_concat comp_def)
  then have d: "distinct (map fst (memory_usage (snd (parse ls))))"
    by (simp only: first_occurrences_distinct)
  have w: "warnings (snd (parse ls)) = concat (map (\<lambda>l. warnings (snd (parse [l]))) ls)"
    by (simp add: parse_eq)
  have e: "errors (snd (parse ls)) = concat (map (\<lambda>l. errors (snd (parse [l]))) ls)"
    by (simp add: parse_eq)
  have pm: "prefix (memory_usage (snd (parse ls))) (memory_usage (snd (parse (ls @ later))))"
    by (simp add: memory_usage_parse [of ls] memory_usage_parse [of "ls @ later"] first_wins_append)
  have pw: "prefix (warnings (snd (parse ls))) (warnings (snd (parse (ls @ later))))"
    by (simp add: parse_eq)
  have pe: "prefix (errors (snd (parse ls))) (errors (snd (parse (ls @ later))))"
    by (simp add: parse_eq)
  from k d w e pm pw pe show ?thesis by blast
qed

subsection \<open>The newline that ends a line\<close>

lemma takeWhile_snoc_reject: "\<not> P x \<Longrightarrow> takeWhile P (xs @ [x]) = takeWhile P xs"
  by (induction xs) auto

lemma dropWhile_snoc_reject: "\<not> P x \<Longrightarrow> dropWhile P (xs @ [x]) = dropWhile P xs @ [x]"
  by (induction xs) auto

lemma rx_newline_end:
  "list_all blind_item r \<Longrightarrow> rx r (s @ [CHR 0x0A]) = rx r s"
proof (induction r s rule: rx.induct)
  case (1 s)
  show ?case by simp
next
  case (2 a r s)
  then show ?case by (cases s) auto
next
  case (3 a lo hi r s)
  let ?n = "length (takeWhile (accepts a) s)"
  let ?top = "case hi of None \<Rightarrow> ?n | Some h \<Rightarrow> min h ?n"
  from "3.prems" have rej: "\<not> accepts a (CHR 0x0A)" and br: "list_all blind_item r"
    by simp_all
  have tw: "takeWhile (accepts a) (s @ [CHR 0x0A]) = takeWhile (accepts a) s"
    using rej by (rule takeWhile_snoc_reject)
  have "first_some (\<lambda>k. map_option ((@) (map Ch (take k (s @ [CHR 0x0A]))))
                           (rx r (drop k (s @ [CHR 0x0A])))) (rev [lo..<Suc ?top])
        = first_some (\<lambda>k. map_option ((@) (map Ch (take k s))) (rx r (drop k s)))
            (rev [lo..<Suc ?top])"
  proof (rule first_some_cong)
    fix k assume "k \<in> set (rev [lo..<Suc ?top])"
    then have "k \<le> ?top" by auto
    also have "?top \<le> ?n" by (simp split: option.splits)
    also have "?n \<le> length s" by (rule length_takeWhile_le)
    finally have kl: "k \<le> length s" .
    from "3.IH" [OF refl refl br, of k] have "rx r (drop k s @ [CHR 0x0A]) = rx r (drop k s)" .
    with kl show "map_option ((@) (map Ch (take k (s @ [CHR 0x0A])))) (rx r (drop k (s @ [CHR 0x0A])))
                = map_option ((@) (map Ch (take k s))) (rx r (drop k s))"
      by simp
  qed
  then show ?case
    by (simp only: rx.simps Let_def tw)
next
  case (4 r s)
  then show ?case by simp
next
  case (5 r s)
  then show ?case by simp
next
  case (6 r s)
  then show ?case by simp
qed

lemma re_search_newline_end:
  assumes "list_all blind_item r"
  shows "re_search r (s @ [CHR 0x0A]) = re_search r s"
proof (induction s)
  case Nil
  from rx_newline_end [OF assms, of "[]"] show ?case
    by (simp split: option.splits)
next
  case (Cons c s)
  from rx_newline_end [OF assms, of "c # s"] Cons.IH show ?case
    by (simp split: option.splits)
qed

lemma capture_newline_end:
  "list_all blind_item r \<Longrightarrow> capture r (s @ [CHR 0x0A]) i = capture r s i"
  by (simp add: capture_def extract_regex_match_def re_search_newline_end)

lemma blind_regexes:
  "list_all blind_item MEMORY_USAGE_REGEX" "list_all blind_item WARNING_REGEX"
  "list_all blind_item ERROR_REGEX"
  by (simp_all add: MEMORY_USAGE_REGEX_def WARNING_REGEX_def ERROR_REGEX_def lits_def is_digit_def)

lemma tail_at_marker:
  "tail_at (''render done in '' @ t) =
     (if dropWhile (\<lambda>x. x \<noteq> CHR 0x0A) t = [] \<or> dropWhile (\<lambda>x. x \<noteq> CHR 0x0A) t = [CHR 0x0A]
      then Some (takeWhile (\<lambda>x. x \<noteq> CHR 0x0A) t) else None)"
  by (simp add: tail_at_def del: dropWhile_eq_Nil_conv)

lemma dropWhile_single_last:
  assumes "dropWhile P t = [x]"
  shows "t \<noteq> [] \<and> last t = x"
proof -
  have "t = takeWhile P t @ dropWhile P t" by simp
  with assms have "t = takeWhile P t @ [x]" by simp
  then show ?thesis by (metis last_snoc snoc_eq_iff_butlast)
qed

lemma tail_at_newline_end:
  assumes "s = [] \<or> last s \<noteq> CHR 0x0A"
  shows "tail_at (s @ [CHR 0x0A]) = tail_at s"
proof (cases "prefix ''render done in '' s")
  case False
  have "''render done in '' \<noteq> s @ [CHR 0x0A]"
  proof
    assume "''render done in '' = s @ [CHR 0x0A]"
    then have "last ''render done in '' = last (s @ [CHR 0x0A])" by (rule arg_cong)
    then show False by simp
  qed
  with False have "\<not> prefix ''render done in '' (s @ [CHR 0x0A])"
    by (simp only: prefix_snoc) simp
  with False show ?thesis by (simp add: tail_at_no_prefix)
next
  case True
  then obtain t where s: "s = ''render done in '' @ t" by (auto simp: prefix_def)
  with assms have t: "t = [] \<or> last t \<noteq> CHR 0x0A"
    by (cases "t = []") simp_all
  have nd: "dropWhile (\<lambda>x. x \<noteq> CHR 0x0A) t \<noteq> [CHR 0x0A]"
  proof
    assume "dropWhile (\<lambda>x. x \<noteq> CHR 0x0A) t = [CHR 0x0A]"
    from dropWhile_single_last [OF this] t show False by simp
  qed
  have "tail_at (''render done in '' @ (t @ [CHR 0x0A])) = tail_at (''render done in '' @ t)"
    unfolding tail_at_marker using nd
    by (simp add: takeWhile_snoc_reject dropWhile_snoc_reject del: dropWhile_eq_Nil_conv)
  with s show ?thesis by simp
qed

lemma spec_render_tail_newline_end:
  "s = [] \<or> last s \<noteq> CHR 0x0A \<Longrightarrow> spec_render_tail (s @ [CHR 0x0A]) = spec_render_tail s"
proof (induction s)
  case Nil
  have "tail_at [CHR 0x0A] = None" by (simp add: tail_at_no_prefix)
  then show ?case by simp
next
  case (Cons c s)
  from Cons.prems have "s = [] \<or> last s \<noteq> CHR 0x0A"
    by (cases "s = []") simp_all
  then have "spec_render_tail (s @ [CHR 0x0A]) = spec_render_tail s" by (rule Cons.IH)
  moreover from Cons.prems have "tail_at ((c # s) @ [CHR 0x0A]) = tail_at (c # s)"
    by (rule tail_at_newline_end)
  ultimately show ?case by (simp split: option.splits)
qed

lemma chomp_cases:
  assumes "\<not> suffix [CHR 0x0A, CHR 0x0A] l"
  obtains "chomp l = l" | u where "l = u @ [CHR 0x0A]" "chomp l = u" "u = [] \<or> last u \<noteq> CHR 0x0A"
proof (cases "l \<noteq> [] \<and> last l = CHR 0x0A")
  case False
  then have "chomp l = l" by (auto simp: chomp_def)
  then show ?thesis by (rule that(1))
next
  case True
  then have l: "l = butlast l @ [CHR 0x0A]" by (metis append_butlast_last_id)
  have c: "chomp l = butlast l" using True by (simp add: chomp_def)
  have "butlast l = [] \<or> last (butlast l) \<noteq> CHR 0x0A"
  proof (rule ccontr)
    assume "\<not> (butlast l = [] \<or> last (butlast l) \<noteq> CHR 0x0A)"
    then have "butlast l = butlast (butlast l) @ [CHR 0x0A]"
      by (metis append_butlast_last_id)
    with l have "l = butlast (butlast l) @ [CHR 0x0A, CHR 0x0A]" by (metis append.assoc append_Cons append_Nil)
    then have "suffix [CHR 0x0A, CHR 0x0A] l" by (metis suffixI)
    with assms show False by simp
  qed
  with l c show ?thesis by (rule that(2))
qed

lemma line_effects_chomp:
  assumes "\<not> suffix [CHR 0x0A, CHR 0x0A] l"
  shows "render_upd (chomp l) = render_upd l"
    and "mem_upd (chomp l) = mem_upd l"
    and "marked WARNING_REGEX (chomp l) = marked WARNING_REGEX l"
    and "marked ERROR_REGEX (chomp l) = marked ERROR_REGEX l"
proof -
  have "render_upd (chomp l) = render_upd l \<and> mem_upd (chomp l) = mem_upd l
      \<and> marked WARNING_REGEX (chomp l) = marked WARNING_REGEX l
      \<and> marked ERROR_REGEX (chomp l) = marked ERROR_REGEX l"
    using assms
  proof (cases rule: chomp_cases)
    case 1
    then show ?thesis by simp
  next
    case (2 u)
    from 2(3) have "spec_render_tail (u @ [CHR 0x0A]) = spec_render_tail u"
      by (rule spec_render_tail_newline_end)
    then have "render_upd (u @ [CHR 0x0A]) = render_upd u"
      by (intro ext) (simp add: render_upd_eq)
    moreover have "mem_upd (u @ [CHR 0x0A]) = mem_upd u"
      by (intro ext) (simp add: mem_upd_def capture_newline_end blind_regexes)
    moreover have "marked WARNING_REGEX (u @ [CHR 0x0A]) = marked WARNING_REGEX u"
      by (simp add: marked_def capture_newline_end blind_regexes)
    moreover have "marked ERROR_REGEX (u @ [CHR 0x0A]) = marked ERROR_REGEX u"
      by (simp add: marked_def capture_newline_end blind_regexes)
    ultimately show ?thesis using 2(1,2) by simp
  qed
  then show "render_upd (chomp l) = render_upd l"
    and "mem_upd (chomp l) = mem_upd l"
    and "marked WARNING_REGEX (chomp l) = marked WARNING_REGEX l"
    and "marked ERROR_REGEX (chomp l) = marked ERROR_REGEX l"
    by simp_all
qed

lemma foldl_chomp:
  assumes "\<And>l. l \<in> set ls \<Longrightarrow> f (chomp l) = f l"
  shows "foldl (\<lambda>a l. f l a) a (map chomp ls) = foldl (\<lambda>a l. f l a) a ls"
  using assms by (induction ls arbitrary: a) simp_all

text \<open>
  Claim C7, as stated, fails: the captured text runs to the end of the line, trailing
  spaces included, so a line with a trailing space gives another warning than the line
  without it; and a line that ends in two newlines has no render time, while the same
  line without them has one.
\<close>

theorem trailing_whitespace_counterexample:
  "parsed (snd (parse [''WARNING: low memory ''])) = (None, [], [''WARNING: low memory ''], [])
   \<and> parsed (snd (parse (map rstrip [''WARNING: low memory '']))) = (None, [], [''WARNING: low memory''], [])
   \<and> render_time (snd (parse [''render done in 5s'' @ [CHR 0x0A, CHR 0x0A]])) = None
   \<and> render_time (snd (parse (map rstrip [''render done in 5s'' @ [CHR 0x0A, CHR 0x0A]]))) = Some ''5s''"
  by code_simp

text \<open>
  Claim C7, amended. Parsing does not depend on the newline that ends a line: for every
  sequence of lines none of which ends in two newlines, \<open>parse\<close> on the lines without
  their final newline yields the same render time, memory usage, warnings and errors as
  \<open>parse\<close> on the lines themselves.
\<close>

theorem parse_ignores_line_terminator:
  assumes "\<forall>l\<in>set ls. \<not> suffix [CHR 0x0A, CHR 0x0A] l"
  shows "parsed (snd (parse (map chomp ls))) = parsed (snd (parse ls))"
proof -
  from assms have n: "\<And>l. l \<in> set ls \<Longrightarrow> \<not> suffix [CHR 0x0A, CHR 0x0A] l" by blast
  have r: "foldl (\<lambda>r l. render_upd l r) None (map chomp ls) = foldl (\<lambda>r l. render_upd l r) None ls"
    by (rule foldl_chomp) (rule line_effects_chomp(1) [OF n])
  have m: "foldl (\<lambda>d l. mem_upd l d) [] (map chomp ls) = foldl (\<lambda>d l. mem_upd l d) [] ls"
    by (rule foldl_chomp) (rule line_effects_chomp(2) [OF n])
  have w: "map (marked WARNING_REGEX) (map chomp ls) = map (marked WARNING_REGEX) ls"
    using n by (simp add: line_effects_chomp(3))
  have e: "map (marked ERROR_REGEX) (map chomp ls) = map (marked ERROR_REGEX) ls"
    using n by (simp add: line_effects_chomp(4))
  show ?thesis
    by (simp add: parsed_def parse_eq r m w e del: map_map)
qed

theorem parse_ignores_line_terminator_witness:
  "parsed (snd (parse (map chomp [''render done in 10s '' @ [CHR 0x0A],
        ''00:01:23  512MB | x'' @ [CHR 0x0A], ''WARNING: a '' @ [CHR 0x0A], ''ERROR at the end''])))
     = parsed (snd (parse [''render done in 10s '' @ [CHR 0x0A],
        ''00:01:23  512MB | x'' @ [CHR 0x0A], ''WARNING: a '' @ [CHR 0x0A], ''ERROR at the end'']))"
proof -
  have h: "\<forall>l\<in>set [''render done in 10s '' @ [CHR 0x0A], ''00:01:23  512MB | x'' @ [CHR 0x0A],
              ''WARNING: a '' @ [CHR 0x0A], ''ERROR at the end''].
      \<not> suffix [CHR 0x0A, CHR 0x0A] l"
    by (simp add: suffix_to_prefix)
  from parse_ignores_line_terminator [OF h] show ?thesis .
qed

subsection \<open>The memory-sample patterns\<close>

lemma takeWhile_run:
  "list_all P u \<Longrightarrow> s = [] \<or> \<not> P (hd s) \<Longrightarrow> takeWhile P (u @ s) = u \<and> dropWhile P (u @ s) = s"
proof (induction u)
  case Nil
  then show ?case by (cases s) auto
next
  case (Cons c u)
  then show ?case by simp
qed

lemma rx_Repeat_run:
  assumes det: "\<And>c cs. accepts a c \<Longrightarrow> rx r (c # cs) = None"
    and u: "list_all (accepts a) u" and s: "s = [] \<or> \<not> accepts a (hd s)" and lo: "lo \<le> length u"
  shows "rx (Repeat a lo None # r) (u @ s) = map_option ((@) (map Ch u)) (rx r s)"
proof -
  have "rx (Repeat a lo None # r) (u @ s) =
     (if lo \<le> length (takeWhile (accepts a) (u @ s))
      then map_option ((@) (map Ch (takeWhile (accepts a) (u @ s))))
             (rx r (dropWhile (accepts a) (u @ s)))
      else None)"
    by (rule rx_Repeat_det) (rule det)
  with takeWhile_run [OF u s] lo show ?thesis by simp
qed

lemma rx_Repeat_run_conv:
  assumes det: "\<And>c cs. accepts a c \<Longrightarrow> rx r (c # cs) = None"
    and m: "rx (Repeat a lo None # r) s = Some tr"
  obtains u s' tr' where "s = u @ s'" "list_all (accepts a) u" "lo \<le> length u"
    "s' = [] \<or> \<not> accepts a (hd s')" "rx r s' = Some tr'" "tr = map Ch u @ tr'"
proof -
  let ?u = "takeWhile (accepts a) s" and ?s = "dropWhile (accepts a) s"
  have e: "rx (Repeat a lo None # r) s =
     (if lo \<le> length ?u then map_option ((@) (map Ch ?u)) (rx r ?s) else None)"
    by (rule rx_Repeat_det) (rule det)
  with m have lo: "lo \<le> length ?u" by (simp split: if_splits)
  with e m have "map_option ((@) (map Ch ?u)) (rx r ?s) = Some tr" by simp
  then obtain tr' where t: "rx r ?s = Some tr'" "tr = map Ch ?u @ tr'" by auto
  have f1: "s = ?u @ ?s" by simp
  have f2: "list_all (accepts a) ?u" by (simp add: list_all_iff) (meson set_takeWhileD)
  have f3: "?s = [] \<or> \<not> accepts a (hd ?s)" by (metis hd_dropWhile)
  show ?thesis by (rule that [OF f1 f2 lo f3 t])
qed

lemma rx_two_digits:
  "rx (Repeat Digit 2 (Some 2) # r) s =
     (case s of
        a # b # s' \<Rightarrow>
          if is_digit a \<and> is_digit b then map_option ((@) [Ch a, Ch b]) (rx r s') else None
      | _ \<Rightarrow> None)"
  by (auto simp: rx_Repeat_exact numeral_2_eq_2 split: list.splits)

lemma rx_colon:
  "rx (Atom (Lit CHR '':'') # r) s =
     (case s of [] \<Rightarrow> None | c # s' \<Rightarrow> if c = CHR '':'' then map_option ((#) (Ch c)) (rx r s') else None)"
  by (simp split: list.splits)

lemma rx_time_fwd:
  assumes "time_label t"
  shows "rx (Repeat Digit 2 (Some 2) # Atom (Lit CHR '':'') # Repeat Digit 2 (Some 2)
             # Atom (Lit CHR '':'') # Repeat Digit 2 (Some 2) # r) (t @ s)
         = map_option ((@) (map Ch t)) (rx r s)"
proof -
  from assms obtain a b c d e f where t: "t = [a, b, CHR '':'', c, d, CHR '':'', e, f]"
    and dg: "is_digit a" "is_digit b" "is_digit c" "is_digit d" "is_digit e" "is_digit f"
    by (auto elim!: time_label.elims)
  show ?thesis
    unfolding t using dg
    by (cases "rx r s") (simp_all add: rx_two_digits rx_colon del: rx.simps)
qed

lemma rx_time_bwd:
  assumes "rx (Repeat Digit 2 (Some 2) # Atom (Lit CHR '':'') # Repeat Digit 2 (Some 2)
             # Atom (Lit CHR '':'') # Repeat Digit 2 (Some 2) # r) s = Some tr"
  obtains t s' tr' where "s = t @ s'" "time_label t" "rx r s' = Some tr'" "tr = map Ch t @ tr'"
proof -
  from assms obtain a b s1 tr1 where 1: "s = a # b # s1" "is_digit a" "is_digit b"
    "rx (Atom (Lit CHR '':'') # Repeat Digit 2 (Some 2) # Atom (Lit CHR '':'')
         # Repeat Digit 2 (Some 2) # r) s1 = Some tr1" "tr = [Ch a, Ch b] @ tr1"
    unfolding rx_two_digits [of _ s] by (auto split: list.splits if_splits)
  from 1(4) obtain s2 tr2 where 2: "s1 = CHR '':'' # s2"
    "rx (Repeat Digit 2 (Some 2) # Atom (Lit CHR '':'') # Repeat Digit 2 (Some 2) # r) s2 = Some tr2"
    "tr1 = Ch CHR '':'' # tr2"
    unfolding rx_colon [of _ s1] by (auto split: list.splits if_splits)
  from 2(2) obtain c d s3 tr3 where 3: "s2 = c # d # s3" "is_digit c" "is_digit d"
    "rx (Atom (Lit CHR '':'') # Repeat Digit 2 (Some 2) # r) s3 = Some tr3" "tr2 = [Ch c, Ch d] @ tr3"
    unfolding rx_two_digits [of _ s2] by (auto split: list.splits if_splits)
  from 3(4) obtain s4 tr4 where 4: "s3 = CHR '':'' # s4"
    "rx (Repeat Digit 2 (Some 2) # r) s4 = Some tr4" "tr3 = Ch CHR '':'' # tr4"
    unfolding rx_colon [of _ s3] by (auto split: list.splits if_splits)
  from 4(2) obtain e f s5 tr5 where 5: "s4 = e # f # s5" "is_digit e" "is_digit f"
    "rx r s5 = Some tr5" "tr4 = [Ch e, Ch f] @ tr5"
    unfolding rx_two_digits [of _ s4] by (auto split: list.splits if_splits)
  let ?t = "[a, b, CHR '':'', c, d, CHR '':'', e, f]"
  have "s = ?t @ s5" using 1(1) 2(1) 3(1) 4(1) 5(1) by simp
  moreover have "time_label ?t" using 1(2,3) 3(2,3) 5(2,3) by simp
  moreover note 5(4)
  moreover have "tr = map Ch ?t @ tr5" using 1(5) 2(3) 3(5) 4(3) 5(5) by simp
  ultimately show ?thesis by (rule that)
qed

lemma det_digits: "accepts (Lit CHR '' '') c \<Longrightarrow> rx (Repeat Digit 1 None # r) (c # cs) = None"
  by (simp add: rx_Repeat_unbounded is_digit_def)

lemma det_open_digits:
  "accepts (Lit CHR '' '') c \<Longrightarrow> rx (Open # Repeat Digit 1 None # r) (c # cs) = None"
  by (simp add: rx_Repeat_unbounded is_digit_def)

lemma det_MB: "accepts Digit c \<Longrightarrow> rx (lits ''MB'' @ r) (c # cs) = None"
  by (auto simp: rx_lits is_digit_def)

lemma det_bar: "accepts (Lit CHR '' '') c \<Longrightarrow> rx [Atom (Lit CHR ''|'')] (c # cs) = None"
  by simp

lemma spaces_run: "spaces sp \<Longrightarrow> list_all (accepts (Lit CHR '' '')) sp \<and> 1 \<le> length sp"
  by (cases sp) (simp_all add: spaces_def list_all_iff)

lemma digits_run: "digits ds \<Longrightarrow> list_all (accepts Digit) ds \<and> 1 \<le> length ds"
  by (cases ds) (simp_all add: digits_def list_all_iff)

lemma digits_hd: "digits ds \<Longrightarrow> ds @ s = [] \<or> \<not> accepts (Lit CHR '' '') (hd (ds @ s))"
  by (cases ds) (auto simp: digits_def is_digit_def)

lemma rx_digits_MB:
  assumes "digits ds"
  shows "rx (Repeat Digit 1 None # lits ''MB'' @ r) (ds @ ''MB'' @ s)
         = map_option ((@) (map Ch (ds @ ''MB''))) (rx r s)"
proof -
  have h: "''MB'' @ s = [] \<or> \<not> accepts Digit (hd (''MB'' @ s))"
    by (simp add: is_digit_def)
  from digits_run [OF assms] have "rx (Repeat Digit 1 None # lits ''MB'' @ r) (ds @ ''MB'' @ s)
      = map_option ((@) (map Ch ds)) (rx (lits ''MB'' @ r) (''MB'' @ s))"
    by (intro rx_Repeat_run [OF det_MB _ h]) simp_all
  then show ?thesis
    by (cases "rx r s") (simp_all add: rx_lits)
qed

lemma rx_spaces_digits_MB:
  assumes "spaces sp" "digits ds"
  shows "rx (Repeat (Lit CHR '' '') 1 None # Repeat Digit 1 None # lits ''MB'' @ r)
            (sp @ ds @ ''MB'' @ s)
         = map_option ((@) (map Ch (sp @ ds @ ''MB''))) (rx r s)"
proof -
  from spaces_run [OF assms(1)] digits_hd [OF assms(2), of "''MB'' @ s"]
  have "rx (Repeat (Lit CHR '' '') 1 None # Repeat Digit 1 None # lits ''MB'' @ r)
            (sp @ (ds @ ''MB'' @ s))
        = map_option ((@) (map Ch sp)) (rx (Repeat Digit 1 None # lits ''MB'' @ r) (ds @ ''MB'' @ s))"
    by (intro rx_Repeat_run [OF det_digits]) simp_all
  then have "rx (Repeat (Lit CHR '' '') 1 None # Repeat Digit 1 None # lits ''MB'' @ r)
            (sp @ (ds @ ''MB'' @ s))
        = map_option ((@) (map Ch sp)) (map_option ((@) (map Ch (ds @ ''MB''))) (rx r s))"
    by (simp only: rx_digits_MB [OF assms(2)])
  then show ?thesis
    by (cases "rx r s") (simp_all del: rx.simps)
qed

lemma rx_spaces_bar:
  assumes "spaces sp"
  shows "rx [Repeat (Lit CHR '' '') 1 None, Atom (Lit CHR ''|'')] (sp @ ''|'' @ post)
         = Some (map Ch (sp @ ''|''))"
proof -
  have h: "''|'' @ post = [] \<or> \<not> accepts (Lit CHR '' '') (hd (''|'' @ post))"
    by simp
  from spaces_run [OF assms]
  have "rx [Repeat (Lit CHR '' '') 1 None, Atom (Lit CHR ''|'')] (sp @ (''|'' @ post))
        = map_option ((@) (map Ch sp)) (rx [Atom (Lit CHR ''|'')] (''|'' @ post))"
    by (intro rx_Repeat_run [OF det_bar _ h]) simp_all
  then show ?thesis by simp
qed

lemma map_option_Some: "map_option f (Some x) = Some (f x)"
  by simp

lemma rx_memory_fwd:
  assumes "sample_shape t sp1 ds sp2"
  shows "rx MEMORY_USAGE_REGEX (sample_text t sp1 ds sp2 @ post)
         = Some (map Ch (sample_text t sp1 ds sp2))"
proof -
  from assms have s: "time_label t" "spaces sp1" "digits ds" "spaces sp2"
    by (simp_all add: sample_shape_def)
  have R: "MEMORY_USAGE_REGEX =
      Repeat Digit 2 (Some 2) # Atom (Lit CHR '':'') # Repeat Digit 2 (Some 2)
      # Atom (Lit CHR '':'') # Repeat Digit 2 (Some 2)
      # Repeat (Lit CHR '' '') 1 None # Repeat Digit 1 None # lits ''MB''
        @ [Repeat (Lit CHR '' '') 1 None, Atom (Lit CHR ''|'')]"
    by (simp add: MEMORY_USAGE_REGEX_def)
  have "rx MEMORY_USAGE_REGEX (t @ sp1 @ ds @ ''MB'' @ sp2 @ ''|'' @ post)
        = Some (map Ch t @ map Ch (sp1 @ ds @ ''MB'') @ map Ch (sp2 @ ''|''))"
    by (simp only: R rx_time_fwd [OF s(1)] rx_spaces_digits_MB [OF s(2,3)] rx_spaces_bar [OF s(4)]
        map_option_Some)
  then show ?thesis by (simp add: sample_text_def)
qed

lemma rx_time_elapsed_fwd:
  assumes "sample_shape t sp1 ds sp2"
  shows "rx TIME_ELAPSED_REGEX (sample_text t sp1 ds sp2 @ post)
         = Some (MOpen # map Ch t @ MClose # map Ch (sp1 @ ds @ ''MB''))"
proof -
  from assms have s: "time_label t" "spaces sp1" "digits ds" "spaces sp2"
    by (simp_all add: sample_shape_def)
  have R: "TIME_ELAPSED_REGEX =
      Open # Repeat Digit 2 (Some 2) # Atom (Lit CHR '':'') # Repeat Digit 2 (Some 2)
      # Atom (Lit CHR '':'') # Repeat Digit 2 (Some 2)
      # Close # Repeat (Lit CHR '' '') 1 None # Repeat Digit 1 None # lits ''MB'' @ []"
    by (simp add: TIME_ELAPSED_REGEX_def)
  have c: "rx (Close # r) u = map_option ((#) MClose) (rx r u)" for r u by simp
  have o: "rx (Open # r) u = map_option ((#) MOpen) (rx r u)" for r u by simp
  have e: "rx [] u = Some []" for u by simp
  have "rx TIME_ELAPSED_REGEX (t @ sp1 @ ds @ ''MB'' @ (sp2 @ ''|'' @ post))
        = Some (MOpen # map Ch t @ MClose # map Ch (sp1 @ ds @ ''MB'') @ [])"
    by (simp only: R o c e rx_time_fwd [OF s(1)] rx_spaces_digits_MB [OF s(2,3)] map_option_Some)
  then show ?thesis by (simp add: sample_text_def)
qed

lemma rx_memory_usage_time_fwd:
  assumes "sample_shape t sp1 ds sp2"
  shows "rx MEMORY_USAGE_TIME_REGEX (sample_text t sp1 ds sp2 @ post)
         = Some (map Ch (t @ sp1) @ MOpen # map Ch (ds @ ''MB'') @ [MClose])"
proof -
  from assms have s: "time_label t" "spaces sp1" "digits ds" "spaces sp2"
    by (simp_all add: sample_shape_def)
  have R: "MEMORY_USAGE_TIME_REGEX =
      Repeat Digit 2 (Some 2) # Atom (Lit CHR '':'') # Repeat Digit 2 (Some 2)
      # Atom (Lit CHR '':'') # Repeat Digit 2 (Some 2)
      # Repeat (Lit CHR '' '') 1 None # Open # Repeat Digit 1 None # lits ''MB'' @ [Close]"
    by (simp add: MEMORY_USAGE_TIME_REGEX_def)
  have c: "rx [Close] u = Some [MClose]" for u by simp
  have o: "rx (Open # r) u = map_option ((#) MOpen) (rx r u)" for r u by simp
  from spaces_run [OF s(2)] digits_hd [OF s(3), of "''MB'' @ (sp2 @ ''|'' @ post)"]
  have a: "rx (Repeat (Lit CHR '' '') 1 None # Open # Repeat Digit 1 None # lits ''MB'' @ [Close])
            (sp1 @ (ds @ ''MB'' @ (sp2 @ ''|'' @ post)))
        = map_option ((@) (map Ch sp1))
            (rx (Open # Repeat Digit 1 None # lits ''MB'' @ [Close])
               (ds @ ''MB'' @ (sp2 @ ''|'' @ post)))"
    by (intro rx_Repeat_run [OF det_open_digits]) simp_all
  have "rx MEMORY_USAGE_TIME_REGEX (t @ (sp1 @ (ds @ ''MB'' @ (sp2 @ ''|'' @ post))))
        = Some (map Ch t @ map Ch sp1 @ MOpen # map Ch (ds @ ''MB'') @ [MClose])"
    by (simp only: R rx_time_fwd [OF s(1)] a o c rx_digits_MB [OF s(3)] map_option_Some)
  then show ?thesis by (simp add: sample_text_def)
qed

lemma run_spaces: "list_all (accepts (Lit CHR '' '')) sp \<Longrightarrow> 1 \<le> length sp \<Longrightarrow> spaces sp"
  by (cases sp) (simp_all add: spaces_def list_all_iff)

lemma run_digits: "list_all (accepts Digit) ds \<Longrightarrow> 1 \<le> length ds \<Longrightarrow> digits ds"
  by (cases ds) (simp_all add: digits_def list_all_iff)

lemma rx_memory_bwd:
  assumes "rx MEMORY_USAGE_REGEX s = Some tr"
  shows "\<exists>t sp1 ds sp2 post. sample_shape t sp1 ds sp2 \<and> s = sample_text t sp1 ds sp2 @ post
           \<and> tr = map Ch (sample_text t sp1 ds sp2)"
proof -
  have R: "MEMORY_USAGE_REGEX =
      Repeat Digit 2 (Some 2) # Atom (Lit CHR '':'') # Repeat Digit 2 (Some 2)
      # Atom (Lit CHR '':'') # Repeat Digit 2 (Some 2)
      # Repeat (Lit CHR '' '') 1 None # Repeat Digit 1 None # lits ''MB''
        @ [Repeat (Lit CHR '' '') 1 None, Atom (Lit CHR ''|'')]"
    by (simp add: MEMORY_USAGE_REGEX_def)
  from assms [unfolded R] obtain t s1 tr1 where 1: "s = t @ s1" "time_label t"
    "rx (Repeat (Lit CHR '' '') 1 None # Repeat Digit 1 None # lits ''MB''
        @ [Repeat (Lit CHR '' '') 1 None, Atom (Lit CHR ''|'')]) s1 = Some tr1"
    "tr = map Ch t @ tr1"
    by (rule rx_time_bwd)
  from det_digits 1(3) obtain sp1 s2 tr2 where 2: "s1 = sp1 @ s2"
    "list_all (accepts (Lit CHR '' '')) sp1" "1 \<le> length sp1"
    "rx (Repeat Digit 1 None # lits ''MB''
        @ [Repeat (Lit CHR '' '') 1 None, Atom (Lit CHR ''|'')]) s2 = Some tr2"
    "tr1 = map Ch sp1 @ tr2"
    by (rule rx_Repeat_run_conv) blast
  from det_MB 2(4) obtain ds s3 tr3 where 3: "s2 = ds @ s3"
    "list_all (accepts Digit) ds" "1 \<le> length ds"
    "rx (lits ''MB'' @ [Repeat (Lit CHR '' '') 1 None, Atom (Lit CHR ''|'')]) s3 = Some tr3"
    "tr2 = map Ch ds @ tr3"
    by (rule rx_Repeat_run_conv) blast
  from 3(4) obtain s4 tr4 where 4: "s3 = ''MB'' @ s4"
    "rx [Repeat (Lit CHR '' '') 1 None, Atom (Lit CHR ''|'')] s4 = Some tr4"
    "tr3 = map Ch ''MB'' @ tr4"
    unfolding rx_lits by (auto simp: prefix_def split: if_splits)
  from det_bar 4(2) obtain sp2 s5 tr5 where 5: "s4 = sp2 @ s5"
    "list_all (accepts (Lit CHR '' '')) sp2" "1 \<le> length sp2"
    "rx [Atom (Lit CHR ''|'')] s5 = Some tr5" "tr4 = map Ch sp2 @ tr5"
    by (rule rx_Repeat_run_conv) blast
  from 5(4) obtain post where 6: "s5 = ''|'' @ post" "tr5 = map Ch ''|''"
    by (cases s5) (auto split: if_splits)
  have "sample_shape t sp1 ds sp2"
    using 1(2) run_spaces [OF 2(2,3)] run_digits [OF 3(2,3)] run_spaces [OF 5(2,3)]
    by (simp add: sample_shape_def)
  moreover have "s = sample_text t sp1 ds sp2 @ post"
    unfolding sample_text_def 1(1) 2(1) 3(1) 4(1) 5(1) 6(1) by simp
  moreover have "tr = map Ch (sample_text t sp1 ds sp2)"
    unfolding sample_text_def 1(4) 2(5) 3(5) 4(3) 5(5) 6(2) by simp
  ultimately show ?thesis by blast
qed

lemma rx_memory_None: "\<not> starts_sample s \<Longrightarrow> rx MEMORY_USAGE_REGEX s = None"
proof (rule ccontr)
  assume n: "\<not> starts_sample s" and "rx MEMORY_USAGE_REGEX s \<noteq> None"
  then obtain tr where "rx MEMORY_USAGE_REGEX s = Some tr" by auto
  from rx_memory_bwd [OF this] obtain t sp1 ds sp2 post where
    "sample_shape t sp1 ds sp2" "s = sample_text t sp1 ds sp2 @ post" by blast
  then have "sample_shape t sp1 ds sp2 \<and> prefix (sample_text t sp1 ds sp2) s"
    by simp
  then have "starts_sample s"
    unfolding starts_sample_def by blast
  with n show False by simp
qed

lemma re_search_skip:
  "\<forall>j<length pre. rx r (drop j (pre @ s)) = None \<Longrightarrow> re_search r (pre @ s) = re_search r s"
proof (induction pre)
  case Nil
  show ?case by simp
next
  case (Cons c pre)
  from Cons.prems have "rx r (drop 0 ((c # pre) @ s)) = None" by blast
  then have h0: "rx r (c # pre @ s) = None" by simp
  have "\<forall>j<length pre. rx r (drop j (pre @ s)) = None"
  proof (intro allI impI)
    fix j assume "j < length pre"
    then have "Suc j < length (c # pre)" by simp
    with Cons.prems have "rx r (drop (Suc j) ((c # pre) @ s)) = None" by blast
    then show "rx r (drop j (pre @ s)) = None" by simp
  qed
  with Cons.IH h0 show ?case by simp
qed

lemma re_search_hit: "rx r s = Some tr \<Longrightarrow> re_search r s = Some tr"
  by (cases s) simp_all

lemma hd_groups_open [simp]:
  "hd (groups (MOpen # map Ch t @ MClose # ts)) = t"
  by simp

lemma mem_upd_sample:
  assumes sh: "sample_shape t sp1 ds sp2"
    and line: "line = pre @ sample_text t sp1 ds sp2 @ post"
    and first: "\<forall>j<length pre. \<not> starts_sample (drop j line)"
  shows "mem_upd line [] = [(Some t, ds @ ''MB'')]"
proof -
  let ?m = "sample_text t sp1 ds sp2"
  from first have "\<forall>j<length pre. rx MEMORY_USAGE_REGEX (drop j (pre @ ?m @ post)) = None"
    unfolding line by (blast intro: rx_memory_None)
  then have "re_search MEMORY_USAGE_REGEX line = re_search MEMORY_USAGE_REGEX (?m @ post)"
    unfolding line by (rule re_search_skip)
  also have "\<dots> = Some (map Ch ?m)"
    by (rule re_search_hit) (rule rx_memory_fwd [OF sh])
  finally have c0: "capture MEMORY_USAGE_REGEX line 0 = Some ?m"
    by (simp add: capture_0)
  have "re_search TIME_ELAPSED_REGEX (?m @ []) = Some (MOpen # map Ch t @ MClose # map Ch (sp1 @ ds @ ''MB''))"
    by (rule re_search_hit) (rule rx_time_elapsed_fwd [OF sh])
  then have c1: "capture TIME_ELAPSED_REGEX ?m (Suc 0) = Some t"
    by (simp add: capture_1 del: map_append)
  have "re_search MEMORY_USAGE_TIME_REGEX (?m @ [])
        = Some (map Ch (t @ sp1) @ MOpen # map Ch (ds @ ''MB'') @ [MClose])"
    by (rule re_search_hit) (rule rx_memory_usage_time_fwd [OF sh])
  then have c2: "capture MEMORY_USAGE_TIME_REGEX ?m (Suc 0) = Some (ds @ ''MB'')"
    by (simp add: capture_1 del: map_append)
  have ne: "?m \<noteq> []" by (simp add: sample_text_def)
  show ?thesis
    unfolding mem_upd_empty by (simp add: c0 c1 c2 ne)
qed

lemma first_wins_key_set: "fst ` set (first_wins ps) = fst ` set ps"
proof -
  have "fst ` set (first_wins ps) = set (map fst (first_wins ps))" by simp
  also have "\<dots> = set (map fst ps)" by (simp only: first_wins_keys first_occurrences_set)
  finally show ?thesis by simp
qed

lemma memory_usage_parse_snoc:
  "memory_usage (snd (parse (ls @ [line]))) =
     memory_usage (snd (parse ls))
     @ filter (\<lambda>q. fst q \<notin> fst ` set (memory_usage (snd (parse ls))))
         (first_wins (memory_usage (snd (parse [line]))))"
proof -
  let ?A = "concat (map (\<lambda>l. memory_usage (snd (parse [l]))) ls)"
  have "memory_usage (snd (parse (ls @ [line]))) = first_wins (?A @ memory_usage (snd (parse [line])))"
    by (simp add: memory_usage_parse [of "ls @ [line]"])
  also have "\<dots> = first_wins ?A @ filter (\<lambda>q. fst q \<notin> fst ` set ?A)
                                      (first_wins (memory_usage (snd (parse [line]))))"
    by (rule first_wins_append)
  also have "fst ` set ?A = fst ` set (first_wins ?A)"
    by (simp only: first_wins_key_set)
  finally show ?thesis
    by (simp only: memory_usage_parse [of ls, symmetric])
qed

text \<open>
  Claim C1. A line that contains a memory sample (\<open>HH:MM:SS\<close>, spaces, digits and
  \<open>MB\<close>, spaces, a pipe), the sample being the first one in the line, contributes the
  pair of its time label and its usage label: parsed alone it yields exactly that entry,
  and after any lines \<open>ls\<close> the pair is appended if the time label is not yet a key and
  the mapping is left as it is otherwise. So the mapping holds, for each time label, the
  usage of the first line that carries it. The spec's line
  \<open>00:01:23  512MB | scene loaded\<close> yields the single entry \<open>00:01:23\<close>, \<open>512MB\<close>.
\<close>

theorem memory_usage_first_wins:
  assumes "sample_shape t sp1 ds sp2"
    and "line = pre @ sample_text t sp1 ds sp2 @ post"
    and "\<forall>j<length pre. \<not> starts_sample (drop j line)"
  shows "memory_usage (snd (parse [line])) = [(Some t, ds @ ''MB'')]
   \<and> memory_usage (snd (parse (ls @ [line]))) =
       (if Some t \<in> fst ` set (memory_usage (snd (parse ls)))
        then memory_usage (snd (parse ls))
        else memory_usage (snd (parse ls)) @ [(Some t, ds @ ''MB'')])
   \<and> memory_usage (snd (parse ls)) =
       first_wins (concat (map (\<lambda>l. memory_usage (snd (parse [l]))) ls))"
proof -
  have one: "memory_usage (snd (parse [line])) = [(Some t, ds @ ''MB'')]"
    using mem_upd_sample [OF assms] by (simp add: parse_eq)
  have "memory_usage (snd (parse (ls @ [line]))) =
       (if Some t \<in> fst ` set (memory_usage (snd (parse ls)))
        then memory_usage (snd (parse ls))
        else memory_usage (snd (parse ls)) @ [(Some t, ds @ ''MB'')])"
    unfolding memory_usage_parse_snoc [of ls line] one by simp
  with one memory_usage_parse [of ls] show ?thesis by blast
qed

theorem memory_usage_first_wins_witness:
  "memory_usage (snd (parse [''00:01:23  512MB | scene loaded''])) = [(Some ''00:01:23'', ''512MB'')]
   \<and> memory_usage (snd (parse ([''00:00:05   100MB |''] @ [''00:00:05   200MB |''])))
       = [(Some ''00:00:05'', ''100MB'')]"
proof -
  have s1: "sample_shape ''00:01:23'' ''  '' ''512'' '' ''"
    by (simp add: sample_shape_def spaces_def digits_def is_digit_def)
  have l1: "''00:01:23  512MB | scene loaded'' = [] @ sample_text ''00:01:23'' ''  '' ''512'' '' '' @ '' scene loaded''"
    by (simp add: sample_text_def)
  have f1: "\<forall>j<length ([]::string). \<not> starts_sample (drop j ''00:01:23  512MB | scene loaded'')"
    by simp
  have s2: "sample_shape ''00:00:05'' ''   '' ''200'' '' ''"
    by (simp add: sample_shape_def spaces_def digits_def is_digit_def)
  have l2: "''00:00:05   200MB |'' = [] @ sample_text ''00:00:05'' ''   '' ''200'' '' '' @ []"
    by (simp add: sample_text_def)
  have f2: "\<forall>j<length ([]::string). \<not> starts_sample (drop j ''00:00:05   200MB |'')"
    by simp
  have p: "memory_usage (snd (parse [''00:00:05   100MB |''])) = [(Some ''00:00:05'', ''100MB'')]"
    by code_simp
  from memory_usage_first_wins [OF s1 l1 f1, of "[]"]
  have a: "memory_usage (snd (parse [''00:01:23  512MB | scene loaded''])) = [(Some ''00:01:23'', ''512MB'')]"
    by simp
  from memory_usage_first_wins [OF s2 l2 f2, of "[''00:00:05   100MB |'']"]
  have b: "memory_usage (snd (parse ([''00:00:05   100MB |''] @ [''00:00:05   200MB |''])))
       = [(Some ''00:00:05'', ''100MB'')]"
    unfolding p by simp
  from a b show ?thesis by (rule conjI)
qed

end
